theory Spec2Isabelle
  imports Complex_Main
begin

section \<open>The insertion-ordered Map of the platform\<close>

text \<open>
  A JavaScript \<open>Map\<close> iterates its entries in insertion order and holds each key once.
  It is modelled as an association list, oldest entry first. \<open>Map.set\<close> on a key that
  is already there replaces the value where the entry stands; on a new key it appends.
\<close>

type_synonym ('k, 'v) jsmap = "('k \<times> 'v) list"

definition Map_has :: "'k \<Rightarrow> ('k, 'v) jsmap \<Rightarrow> bool" where
  "Map_has k m = (map_of m k \<noteq> None)"

definition Map_get :: "'k \<Rightarrow> ('k, 'v) jsmap \<Rightarrow> 'v option" where
  "Map_get k m = map_of m k"

definition Map_delete :: "'k \<Rightarrow> ('k, 'v) jsmap \<Rightarrow> ('k, 'v) jsmap" where
  "Map_delete k m = filter (\<lambda>p. fst p \<noteq> k) m"

definition Map_set :: "'k \<Rightarrow> 'v \<Rightarrow> ('k, 'v) jsmap \<Rightarrow> ('k, 'v) jsmap" where
  "Map_set k v m =
     (if Map_has k m then map (\<lambda>p. if fst p = k then (k, v) else p) m
      else m @ [(k, v)])"

definition Map_keys :: "('k, 'v) jsmap \<Rightarrow> 'k list" where
  "Map_keys m = map fst m"

section \<open>LRUCache (src/background/service-worker.js, lines 32-57)\<close>

record ('k, 'v) LRUCache =
  maxSize :: int
  cache :: "('k, 'v) jsmap"

definition LRUCache_new :: "int \<Rightarrow> ('k, 'v) LRUCache" where
  "LRUCache_new n = \<lparr>maxSize = n, cache = []\<rparr>"

text \<open>
  \<open>get(key)\<close>: absent keys give \<open>null\<close> (here \<open>None\<close>) and leave the cache alone; a
  present key is deleted and set again, which moves it to the end of the Map.
\<close>

definition LRU_get :: "'k \<Rightarrow> ('k, 'v) LRUCache \<Rightarrow> 'v option \<times> ('k, 'v) LRUCache" where
  "LRU_get key c =
     (if \<not> Map_has key (cache c) then (None, c)
      else (case Map_get key (cache c) of
              None \<Rightarrow> (None, c)
            | Some v \<Rightarrow> (Some v, c\<lparr>cache := Map_set key v (Map_delete key (cache c))\<rparr>)))"

text \<open>
  \<open>set(key, value)\<close>: when \<open>cache.size >= maxSize\<close> the first key of the Map is deleted
  (on an empty Map \<open>keys().next().value\<close> is \<open>undefined\<close> and the delete does nothing);
  then \<open>cache.set(key, value)\<close>. The size test does not look at \<open>key\<close>.
\<close>

definition LRU_set :: "'k \<Rightarrow> 'v \<Rightarrow> ('k, 'v) LRUCache \<Rightarrow> ('k, 'v) LRUCache" where
  "LRU_set key v c =
     (let m = (if int (length (cache c)) \<ge> maxSize c
               then (case cache c of [] \<Rightarrow> cache c
                     | p # _ \<Rightarrow> Map_delete (fst p) (cache c))
               else cache c)
      in c\<lparr>cache := Map_set key v m\<rparr>)"

definition LRU_has :: "'k \<Rightarrow> ('k, 'v) LRUCache \<Rightarrow> bool" where
  "LRU_has key c = Map_has key (cache c)"

subsection \<open>Operation sequences and last-access times\<close>

text \<open>
  To speak about recency, a run of operations is numbered: operation number \<open>t\<close> stamps
  the key it accesses with \<open>t\<close>. A \<open>set\<close> accesses its key; a \<open>get\<close> accesses its key
  when the key is present. The stamps are bookkeeping beside the cache; the cache itself
  is only ever changed by \<open>LRU_get\<close> and \<open>LRU_set\<close>.
\<close>

datatype ('k, 'v) cache_op = Get 'k | Set 'k 'v

record ('k, 'v) stamped =
  lru :: "('k, 'v) LRUCache"
  clock :: nat
  stamp :: "'k \<Rightarrow> nat option"

definition stamped_new :: "int \<Rightarrow> ('k, 'v) stamped" where
  "stamped_new n = \<lparr>lru = LRUCache_new n, clock = 0, stamp = (\<lambda>_. None)\<rparr>"

fun stamped_step :: "('k, 'v) cache_op \<Rightarrow> ('k, 'v) stamped \<Rightarrow> ('k, 'v) stamped" where
  "stamped_step (Get k) s =
     \<lparr>lru = snd (LRU_get k (lru s)), clock = Suc (clock s),
      stamp = (if LRU_has k (lru s) then (stamp s)(k \<mapsto> clock s) else stamp s)\<rparr>"
| "stamped_step (Set k v) s =
     \<lparr>lru = LRU_set k v (lru s), clock = Suc (clock s),
      stamp = (stamp s)(k \<mapsto> clock s)\<rparr>"

fun stamped_run :: "('k, 'v) cache_op list \<Rightarrow> ('k, 'v) stamped \<Rightarrow> ('k, 'v) stamped" where
  "stamped_run [] s = s"
| "stamped_run (x # xs) s = stamped_run xs (stamped_step x s)"

text \<open>
  \<open>inserts_only ops s\<close>: every \<open>set\<close> of the run is an insertion, that is, its key is
  not in the cache at the moment of the \<open>set\<close>.
\<close>

fun inserts_only :: "('k, 'v) cache_op list \<Rightarrow> ('k, 'v) stamped \<Rightarrow> bool" where
  "inserts_only [] s = True"
| "inserts_only (Get k # xs) s = inserts_only xs (stamped_step (Get k) s)"
| "inserts_only (Set k v # xs) s =
     (\<not> LRU_has k (lru s) \<and> inserts_only xs (stamped_step (Set k v) s))"

text \<open>
  \<open>least_recent s e\<close>: \<open>e\<close> is in the cache and every other key of the cache was
  accessed later.
\<close>

definition least_recent :: "('k, 'v) stamped \<Rightarrow> 'k \<Rightarrow> bool" where
  "least_recent s e =
     (LRU_has e (lru s) \<and>
      list_all (\<lambda>k. k = e \<or> (case (stamp s e, stamp s k) of
                                (Some a, Some b) \<Rightarrow> a < b | _ \<Rightarrow> False))
               (Map_keys (cache (lru s))))"

text \<open>
  The invariant of a stamped run: the keys of the Map, read from oldest to newest, carry
  strictly increasing stamps, all below the clock.
\<close>

definition stamps_ok :: "('k, 'v) stamped \<Rightarrow> bool" where
  "stamps_ok s = (\<exists>ts. map (stamp s) (Map_keys (cache (lru s))) = map Some ts
                    \<and> sorted_wrt (<) ts \<and> (\<forall>t\<in>set ts. t < clock s))"

section \<open>Values of the platform\<close>

text \<open>
  The values that travel through the service worker are parsed JSON, \<open>undefined\<close> and
  thrown \<open>Error\<close> objects. Numbers are the integers (fractions and exponents, where the
  double arithmetic of the platform decides, are outside the model); a string is a list
  of characters; the entries of an object are listed in the order of the text.
\<close>

datatype json =
    JUndefined
  | JNull
  | JBool bool
  | JNum int
  | JStr string
  | JArr "json list"
  | JObj "(string \<times> json) list"

datatype js_error = JsError (message: string) (stack: string)

definition TypeError :: "string \<Rightarrow> js_error" where
  "TypeError msg = JsError msg []"

text \<open>\<open>!v\<close> is \<open>\<not> truthy v\<close>.\<close>

fun truthy :: "json \<Rightarrow> bool" where
  "truthy JUndefined = False"
| "truthy JNull = False"
| "truthy (JBool b) = b"
| "truthy (JNum n) = (n \<noteq> 0)"
| "truthy (JStr s) = (s \<noteq> [])"
| "truthy (JArr _) = True"
| "truthy (JObj _) = True"

fun nullish :: "json \<Rightarrow> bool" where
  "nullish JUndefined = True"
| "nullish JNull = True"
| "nullish _ = False"

text \<open>
  \<open>member v name\<close> is \<open>v.name\<close> for a \<open>v\<close> that is neither \<open>null\<close> nor \<open>undefined\<close>.
  When a key is repeated in the text of an object the last one counts. The names the
  source reads (\<open>meanings\<close>, \<open>definitions\<close>, \<open>definition\<close>, \<open>synonyms\<close>, \<open>antonyms\<close>,
  \<open>word\<close>, \<open>phonetic\<close>, \<open>phonetics\<close>, \<open>text\<close>, \<open>error\<close>, \<open>message\<close>, \<open>candidates\<close>,
  \<open>content\<close>, \<open>parts\<close>, \<open>promptFeedback\<close>, \<open>blockReason\<close>) are no built-in property of
  an array, a string, a number or a boolean, so there the read gives \<open>undefined\<close>.
\<close>

fun member :: "json \<Rightarrow> string \<Rightarrow> json" where
  "member (JObj kvs) name = (case map_of (rev kvs) name of None \<Rightarrow> JUndefined | Some v \<Rightarrow> v)"
| "member _ name = JUndefined"

text \<open>\<open>v.name\<close>: a \<open>TypeError\<close> on \<open>null\<close> and \<open>undefined\<close>.\<close>

definition dot :: "json \<Rightarrow> string \<Rightarrow> js_error + json" where
  "dot v name =
     (if nullish v then Inl (TypeError (''Cannot read properties of null or undefined: '' @ name))
      else Inr (member v name))"

text \<open>\<open>v?.name\<close> and \<open>v?.[0]\<close>.\<close>

definition opt_dot :: "json \<Rightarrow> string \<Rightarrow> json" where
  "opt_dot v name = (if nullish v then JUndefined else member v name)"

fun element0 :: "json \<Rightarrow> json" where
  "element0 (JArr []) = JUndefined"
| "element0 (JArr (x # _)) = x"
| "element0 (JStr []) = JUndefined"
| "element0 (JStr (c # _)) = JStr [c]"
| "element0 (JObj kvs) = member (JObj kvs) ''0''"
| "element0 _ = JUndefined"

definition opt_index0 :: "json \<Rightarrow> json" where
  "opt_index0 v = (if nullish v then JUndefined else element0 v)"

section \<open>api.sanitizeDictionaryResponse (service-worker.js, lines 217-239)\<close>

text \<open>
  A \<open>Set\<close> keeps its elements in insertion order and compares them by SameValueZero:
  primitives by value, objects and arrays by identity. Every object and array of a parsed
  response is an object of its own, so two of them are never the same element.
\<close>

fun same_value_zero :: "json \<Rightarrow> json \<Rightarrow> bool" where
  "same_value_zero JUndefined JUndefined = True"
| "same_value_zero JNull JNull = True"
| "same_value_zero (JBool a) (JBool b) = (a = b)"
| "same_value_zero (JNum a) (JNum b) = (a = b)"
| "same_value_zero (JStr a) (JStr b) = (a = b)"
| "same_value_zero _ _ = False"

definition Set_add :: "json \<Rightarrow> json list \<Rightarrow> json list" where
  "Set_add x xs = (if list_ex (same_value_zero x) xs then xs else xs @ [x])"

text \<open>
  \<open>v?.forEach(x => acc.add(x))\<close>: nothing on \<open>null\<close> and \<open>undefined\<close>, the elements in
  order on an array, and a \<open>TypeError\<close> on anything else, which has no \<open>forEach\<close> to call.
\<close>

definition forEach_add :: "string \<Rightarrow> json \<Rightarrow> json list \<Rightarrow> js_error + json list" where
  "forEach_add name v acc =
     (case v of
        JUndefined \<Rightarrow> Inr acc
      | JNull \<Rightarrow> Inr acc
      | JArr xs \<Rightarrow> Inr (fold Set_add xs acc)
      | _ \<Rightarrow> Inl (TypeError (name @ ''.forEach is not a function'')))"

text \<open>The body of \<open>firstResult.meanings?.forEach(m => ...)\<close>, group by group.\<close>

fun collect :: "json list \<Rightarrow> json list \<times> json list \<Rightarrow> js_error + (json list \<times> json list)" where
  "collect [] acc = Inr acc"
| "collect (m # ms) (syn, ant) =
     (case dot m ''synonyms'' of
        Inl e \<Rightarrow> Inl e
      | Inr s \<Rightarrow>
          (case forEach_add ''m.synonyms'' s syn of
             Inl e \<Rightarrow> Inl e
           | Inr syn' \<Rightarrow>
               (case forEach_add ''m.antonyms'' (member m ''antonyms'') ant of
                  Inl e \<Rightarrow> Inl e
                | Inr ant' \<Rightarrow> collect ms (syn', ant'))))"

definition meanings_forEach :: "json \<Rightarrow> js_error + (json list \<times> json list)" where
  "meanings_forEach meanings =
     (case meanings of
        JUndefined \<Rightarrow> Inr ([], [])
      | JNull \<Rightarrow> Inr ([], [])
      | JArr ms \<Rightarrow> collect ms ([], [])
      | _ \<Rightarrow> Inl (TypeError ''firstResult.meanings.forEach is not a function''))"

text \<open>\<open>phonetics.find(p => p.text)\<close> on the elements of an array.\<close>

fun find_text :: "json list \<Rightarrow> js_error + json" where
  "find_text [] = Inr JUndefined"
| "find_text (p # ps) =
     (case dot p ''text'' of
        Inl e \<Rightarrow> Inl e
      | Inr t \<Rightarrow> if truthy t then Inr p else find_text ps)"

text \<open>\<open>firstResult.phonetic || firstResult.phonetics?.find(p => p.text)?.text\<close>.\<close>

definition phonetic_of :: "json \<Rightarrow> js_error + json" where
  "phonetic_of firstResult =
     (if truthy (member firstResult ''phonetic'') then Inr (member firstResult ''phonetic'')
      else (case member firstResult ''phonetics'' of
              JUndefined \<Rightarrow> Inr JUndefined
            | JNull \<Rightarrow> Inr JUndefined
            | JArr ps \<Rightarrow> (case find_text ps of
                            Inl e \<Rightarrow> Inl e
                          | Inr p \<Rightarrow> Inr (opt_dot p ''text''))
            | _ \<Rightarrow> Inl (TypeError ''firstResult.phonetics.find is not a function'')))"

text \<open>\<open>meanings?.[0]?.definitions?.[0]?.definition\<close>.\<close>

definition first_definition :: "json \<Rightarrow> json" where
  "first_definition meanings =
     opt_dot (opt_index0 (opt_dot (opt_index0 meanings) ''definitions'')) ''definition''"

record normalized =
  word :: json
  phonetic :: json
  meaning :: json
  synonyms :: "json list"
  antonyms :: "json list"

text \<open>
  The result is \<open>Inr None\<close> for \<open>null\<close>, \<open>Inr (Some r)\<close> for a record and \<open>Inl e\<close> when the
  function throws.
\<close>

definition sanitizeDictionaryResponse :: "json \<Rightarrow> js_error + normalized option" where
  "sanitizeDictionaryResponse data =
     (case data of
        JArr (firstResult # _) \<Rightarrow>
          (case dot firstResult ''meanings'' of
             Inl e \<Rightarrow> Inl e
           | Inr meanings \<Rightarrow>
               if \<not> truthy (first_definition meanings) then Inr None
               else (case meanings_forEach meanings of
                       Inl e \<Rightarrow> Inl e
                     | Inr (allSynonyms, allAntonyms) \<Rightarrow>
                         (case phonetic_of firstResult of
                            Inl e \<Rightarrow> Inl e
                          | Inr ph \<Rightarrow>
                              Inr (Some \<lparr>word = member firstResult ''word'',
                                         phonetic = ph,
                                         meaning = first_definition meanings,
                                         synonyms = allSynonyms,
                                         antonyms = allAntonyms\<rparr>))))
      | _ \<Rightarrow> Inr None)"

text \<open>
  What a dictionary response promises about its first result: it is an object, its
  meaning groups are an array of objects whose \<open>synonyms\<close> and \<open>antonyms\<close> are arrays where
  they are present, and its \<open>phonetics\<close>, where present, is an array of objects.
\<close>

fun array_or_absent :: "json \<Rightarrow> bool" where
  "array_or_absent JUndefined = True"
| "array_or_absent JNull = True"
| "array_or_absent (JArr _) = True"
| "array_or_absent _ = False"

definition meaning_group :: "json \<Rightarrow> bool" where
  "meaning_group m =
     (\<not> nullish m \<and> array_or_absent (member m ''synonyms'')
      \<and> array_or_absent (member m ''antonyms''))"

definition phonetics_ok :: "json \<Rightarrow> bool" where
  "phonetics_ok firstResult =
     (truthy (member firstResult ''phonetic'') \<or>
      (case member firstResult ''phonetics'' of
         JUndefined \<Rightarrow> True
       | JNull \<Rightarrow> True
       | JArr ps \<Rightarrow> list_all (\<lambda>p. \<not> nullish p) ps
       | _ \<Rightarrow> False))"

definition dictionary_entry :: "json \<Rightarrow> bool" where
  "dictionary_entry firstResult =
     (\<not> nullish firstResult \<and>
      (case member firstResult ''meanings'' of
         JArr ms \<Rightarrow> list_all meaning_group ms
       | _ \<Rightarrow> False) \<and>
      phonetics_ok firstResult)"

text \<open>
  \<open>listed name ms x\<close>: the value \<open>x\<close> stands in the array \<open>name\<close> of some meaning group
  of \<open>ms\<close>.
\<close>

definition listed :: "string \<Rightarrow> json list \<Rightarrow> json \<Rightarrow> bool" where
  "listed name ms x =
     list_ex (\<lambda>m. case member m name of JArr xs \<Rightarrow> x \<in> set xs | _ \<Rightarrow> False) ms"

section \<open>Strings of the platform\<close>

text \<open>
  \<open>toLowerCase\<close>, \<open>trim\<close>, \<open>split\<close> and the conversion of a value inside a template
  literal, on strings of ASCII characters (the platform's strings are UTF-16 and know
  more letters and more white space; the functions below leave other characters alone).
\<close>

definition toLowerCase :: "string \<Rightarrow> string" where
  "toLowerCase s =
     map (\<lambda>c. case map_of (zip ''ABCDEFGHIJKLMNOPQRSTUVWXYZ'' ''abcdefghijklmnopqrstuvwxyz'') c of
                 None \<Rightarrow> c | Some d \<Rightarrow> d) s"

definition is_space :: "char \<Rightarrow> bool" where
  "is_space c = (c \<in> set [CHR 0x20, CHR 0x09, CHR 0x0A, CHR 0x0B, CHR 0x0C, CHR 0x0D])"

definition trim :: "string \<Rightarrow> string" where
  "trim s = rev (dropWhile is_space (rev (dropWhile is_space s)))"

text \<open>\<open>s.split(sep)[0]\<close> for a separator that is not empty.\<close>

fun split_first :: "string \<Rightarrow> string \<Rightarrow> string" where
  "split_first sep [] = []"
| "split_first sep (c # cs) =
     (if take (length sep) (c # cs) = sep then [] else c # split_first sep cs)"

fun show_nat :: "nat \<Rightarrow> string" where
  "show_nat n =
     (if n < 10 then [''0123456789'' ! n]
      else show_nat (n div 10) @ [''0123456789'' ! (n mod 10)])"

definition show_int :: "int \<Rightarrow> string" where
  "show_int i = (if i < 0 then CHR ''-'' # show_nat (nat (- i)) else show_nat (nat i))"

fun join_comma :: "string list \<Rightarrow> string" where
  "join_comma [] = []"
| "join_comma [x] = x"
| "join_comma (x # y # zs) = x @ '','' @ join_comma (y # zs)"

fun String_of :: "json \<Rightarrow> string" where
  "String_of JUndefined = ''undefined''"
| "String_of JNull = ''null''"
| "String_of (JBool b) = (if b then ''true'' else ''false'')"
| "String_of (JNum n) = show_int n"
| "String_of (JStr s) = s"
| "String_of (JArr xs) = join_comma (map (\<lambda>x. if nullish x then [] else String_of x) xs)"
| "String_of (JObj _) = ''[object Object]''"

section \<open>Diagnostics: logError (service-worker.js, lines 117-143)\<close>

text \<open>
  The details handed to \<open>logError\<close> are object literals whose fields are strings or a
  caught \<open>Error\<close>; an \<open>Error\<close> under the key \<open>error\<close> is stored as its message and stack.
  The timestamp is kept as the clock value in milliseconds, not as its ISO text.
\<close>

datatype detail = DString string | DError js_error | DFlat string string

record errorRecord =
  timestamp :: int
  source :: string
  details :: "(string \<times> detail) list"

definition maxLogSize :: nat where
  "maxLogSize = 100"

definition logError :: "int \<Rightarrow> string \<Rightarrow> (string \<times> detail) list \<Rightarrow> errorRecord list \<Rightarrow> errorRecord list" where
  "logError now src dets logs =
     (let processedDetails =
            (case map_of dets ''error'' of
               Some (DError e) \<Rightarrow>
                 map (\<lambda>p. if fst p = ''error'' then (fst p, DFlat (message e) (stack e)) else p) dets
             | _ \<Rightarrow> dets);
          logs1 = \<lparr>timestamp = now, source = src, details = processedDetails\<rparr> # logs
      in if length logs1 > maxLogSize then butlast logs1 else logs1)"

section \<open>rateLimiter (service-worker.js, lines 90-115)\<close>

text \<open>
  The timer of the platform is not code of the service worker. What it does with the
  delay it is handed is written out: \<open>setInterval(callback, ms)\<close> of the browser takes
  \<open>ms\<close> as a 32-bit integer (the fraction is cut off, the integer wraps modulo
  \<open>2^32\<close> into the signed range) and counts a negative delay as 0. So \<open>1000 / 3\<close> is
  a delay of 333 milliseconds. (Node.js cuts the fraction off in the same way and takes a
  delay outside \<open>1 .. 2^31 - 1\<close> as 1; the two agree between 1 and \<open>2^31 - 1\<close>.)
  Times and rates are real numbers; the double arithmetic of the platform is not modelled.
\<close>

definition IntegerPart :: "real \<Rightarrow> int" where
  "IntegerPart x = (if x < 0 then \<lceil>x\<rceil> else \<lfloor>x\<rfloor>)"

definition ToInt32 :: "real \<Rightarrow> int" where
  "ToInt32 x = (let m = IntegerPart x mod 2 ^ 32 in if 2 ^ 31 \<le> m then m - 2 ^ 32 else m)"

definition timer_delay :: "real \<Rightarrow> real" where
  "timer_delay ms = real_of_int (max 0 (ToInt32 ms))"

text \<open>
  An armed timer: \<open>period\<close> is the delay as the platform took it; \<open>due\<close> is the time
  the timer is set for, one period after the arming or after the previous run of the
  callback. When the callback really runs is up to the platform (see \<open>step\<close> and
  \<open>punctual\<close> below): nothing in the service worker looks at the clock.
\<close>

record interval_timer =
  period :: real
  due :: real

definition setInterval :: "real \<Rightarrow> real \<Rightarrow> interval_timer" where
  "setInterval now ms = \<lparr>period = timer_delay ms, due = now + timer_delay ms\<rparr>"

text \<open>
  The three fields of the source, and \<open>timerId\<close>: in the source a local of
  \<open>processQueue\<close> that the callback closes over, here the timer that is armed, if any.
\<close>

record 'a rateLimiter =
  queue :: "'a list"
  isProcessing :: bool
  requestsPerSecond :: real
  timerId :: "interval_timer option"

definition rateLimiter_init :: "'a rateLimiter" where
  "rateLimiter_init = \<lparr>queue = [], isProcessing = False, requestsPerSecond = 5, timerId = None\<rparr>"

text \<open>
  \<open>processQueue\<close> and \<open>add\<close> take the present time, which the arming of the timer needs.
  The interval handed to the timer is \<open>1000 / requestsPerSecond\<close>. (At rate 0 the source
  computes \<open>Infinity\<close>, which the timer takes as 0; the division of the logic gives 0 as
  well.)
\<close>

definition processQueue :: "real \<Rightarrow> 'a rateLimiter \<Rightarrow> 'a rateLimiter" where
  "processQueue now r =
     (if isProcessing r \<or> queue r = [] then r
      else r\<lparr>isProcessing := True,
              timerId := Some (setInterval now (1000 / requestsPerSecond r))\<rparr>)"

definition add :: "real \<Rightarrow> 'a \<Rightarrow> 'a rateLimiter \<Rightarrow> 'a rateLimiter" where
  "add now request r = processQueue now (r\<lparr>queue := queue r @ [request]\<rparr>)"

text \<open>
  The callback handed to \<open>setInterval\<close>: it shifts one request off the queue and calls it
  (the request is returned here, to be called by the caller of the model), or, on an
  empty queue, clears the timer and resets \<open>isProcessing\<close>. The call \<open>request()\<close> is not
  awaited.
\<close>

definition onInterval :: "'a rateLimiter \<Rightarrow> 'a option \<times> 'a rateLimiter" where
  "onInterval r =
     (case queue r of
        request # rest \<Rightarrow> (Some request, r\<lparr>queue := rest\<rparr>)
      | [] \<Rightarrow> (None, r\<lparr>timerId := None, isProcessing := False\<rparr>))"

text \<open>
  After a run of the callback a timer that was not cleared is set for one period later.
\<close>

definition rearm :: "real \<Rightarrow> 'a rateLimiter \<Rightarrow> 'a rateLimiter" where
  "rearm now r = r\<lparr>timerId := map_option (\<lambda>tm. tm\<lparr>due := now + period tm\<rparr>) (timerId r)\<rparr>"

subsection \<open>The rate limiter in time\<close>

text \<open>
  A world is the rate limiter together with the clock, the log of the requests called so
  far with the times of their calls, and the requests that were called and have not yet
  settled. Three things happen to it: a caller adds a request, the platform runs the
  callback of the armed timer, a request that is in flight settles. \<open>step\<close> is \<open>None\<close>
  for an event that cannot happen: time does not run backwards, a timer that is not armed
  does not run, and only a request in flight settles. \<open>step\<close> does not ask whether the
  timer is due: the callback does whatever it does whenever the platform runs it, and a
  platform may run it before the time the timer was set for.
\<close>

record 'a world =
  pacer :: "'a rateLimiter"
  time :: real
  started :: "('a \<times> real) list"
  running :: "'a list"

datatype 'a event = Add real 'a | Tick real | Settle real 'a

definition world_init :: "real \<Rightarrow> 'a world" where
  "world_init rps = \<lparr>pacer = rateLimiter_init\<lparr>requestsPerSecond := rps\<rparr>,
                     time = 0, started = [], running = []\<rparr>"

fun step :: "'a event \<Rightarrow> 'a world \<Rightarrow> 'a world option" where
  "step (Add t a) w =
     (if t < time w then None
      else Some (w\<lparr>time := t, pacer := add t a (pacer w)\<rparr>))"
| "step (Tick t) w =
     (if t < time w then None
      else (case timerId (pacer w) of
              None \<Rightarrow> None
            | Some tm \<Rightarrow>
                (case onInterval (pacer w) of
                   (None, r) \<Rightarrow> Some (w\<lparr>time := t, pacer := rearm t r\<rparr>)
                 | (Some a, r) \<Rightarrow>
                     Some (w\<lparr>time := t, pacer := rearm t r,
                             started := started w @ [(a, t)],
                             running := running w @ [a]\<rparr>))))"
| "step (Settle t a) w =
     (if t < time w \<or> a \<notin> set (running w) then None
      else Some (w\<lparr>time := t, running := remove1 a (running w)\<rparr>))"

fun run :: "'a event list \<Rightarrow> 'a world \<Rightarrow> 'a world option" where
  "run [] w = Some w"
| "run (e # es) w = (case step e w of None \<Rightarrow> None | Some w' \<Rightarrow> run es w')"

text \<open>
  A run of events is punctual when the platform never runs the callback before the time
  the timer was set for: every \<open>Tick\<close> of the run comes at or after \<open>due\<close>.
\<close>

fun on_time :: "'a event \<Rightarrow> 'a world \<Rightarrow> bool" where
  "on_time (Tick t) w = (case timerId (pacer w) of None \<Rightarrow> False | Some tm \<Rightarrow> due tm \<le> t)"
| "on_time _ w = True"

fun punctual :: "'a event list \<Rightarrow> 'a world \<Rightarrow> bool" where
  "punctual [] w = True"
| "punctual (e # es) w =
     (on_time e w \<and> (case step e w of None \<Rightarrow> False | Some w' \<Rightarrow> punctual es w'))"

text \<open>The requests added by a list of events, in the order of their adding.\<close>

fun added :: "'a event list \<Rightarrow> 'a list" where
  "added [] = []"
| "added (Add t a # es) = a # added es"
| "added (_ # es) = added es"

text \<open>The number of runs of the timer callback in a list of events.\<close>

fun ticks :: "'a event list \<Rightarrow> nat" where
  "ticks [] = 0"
| "ticks (Tick t # es) = Suc (ticks es)"
| "ticks (_ # es) = ticks es"

text \<open>Consecutive calls are at least \<open>gap\<close> apart.\<close>

fun spaced :: "real \<Rightarrow> ('a \<times> real) list \<Rightarrow> bool" where
  "spaced gap [] = True"
| "spaced gap [x] = True"
| "spaced gap (x # y # zs) = (snd x + gap \<le> snd y \<and> spaced gap (y # zs))"

section \<open>The state of the service worker\<close>

record config =
  dictionary :: string
  toneRewrite :: string
  gemini :: json
  cacheTTL :: int

definition config_init :: config where
  "config_init =
     \<lparr>dictionary = ''https://api.dictionaryapi.dev/api/v2/entries/en/'',
      toneRewrite = ''https://generativelanguage.googleapis.com/v1beta/models/gemini-2.5-flash:generateContent'',
      gemini = JNull,
      cacheTTL = 7 * 24 * 60 * 60 * 1000\<rparr>"

text \<open>
  An entry of \<open>chrome.storage.local\<close> as \<open>persistentCache.set\<close> writes it:
  \<open>{value, expires}\<close>. The storage is modelled on the keys of the cache only.
\<close>

record item =
  item_value :: normalized
  expires :: int

text \<open>The calls made to the platform: \<open>chrome.storage.local\<close> and \<open>fetch\<close>.\<close>

datatype call =
    StorageGet string
  | StorageRemove string
  | StorageSet string
  | Fetch string "string option"

fun is_fetch :: "call \<Rightarrow> bool" where
  "is_fetch (Fetch _ _) = True"
| "is_fetch _ = False"

text \<open>
  A request on the rate limiter is the closure the lookup builds; it holds \<open>text\<close> and
  the cache key.
\<close>

datatype request = LookupRequest (req_text: string) (req_key: string)

record state =
  config :: config
  sessionCache :: "(string, normalized) LRUCache"
  storage :: "string \<Rightarrow> item option"
  limiter :: "request rateLimiter"
  errorLogs :: "errorRecord list"
  calls :: "call list"

definition state_init :: state where
  "state_init =
     \<lparr>config = config_init, sessionCache = LRUCache_new 50, storage = (\<lambda>_. None),
      limiter = rateLimiter_init, errorLogs = [], calls = []\<rparr>"

section \<open>persistentCache (service-worker.js, lines 61-88)\<close>

text \<open>
  The storage of the platform keeps what was set until it is removed. Each of its calls
  may throw; whether it does is an input of the model (\<open>Some e\<close>: the call throws \<open>e\<close>).
  \<open>now\<close> is \<open>Date.now()\<close>.
\<close>

definition persistentCache_get ::
  "int \<Rightarrow> js_error option \<Rightarrow> js_error option \<Rightarrow> string \<Rightarrow> state \<Rightarrow> normalized option \<times> state" where
  "persistentCache_get now get_throws remove_throws key st =
     (let st1 = st\<lparr>calls := calls st @ [StorageGet key]\<rparr> in
      case get_throws of
        Some e \<Rightarrow>
          (None, st1\<lparr>errorLogs := logError now ''persistentCache.get'' [(''error'', DError e)] (errorLogs st1)\<rparr>)
      | None \<Rightarrow>
          (case storage st1 key of
             None \<Rightarrow> (None, st1)
           | Some it \<Rightarrow>
               if now > expires it then
                 (let st2 = st1\<lparr>calls := calls st1 @ [StorageRemove key]\<rparr> in
                  case remove_throws of
                    Some e \<Rightarrow>
                      (None, st2\<lparr>errorLogs := logError now ''persistentCache.get'' [(''error'', DError e)] (errorLogs st2)\<rparr>)
                  | None \<Rightarrow> (None, st2\<lparr>storage := (storage st2)(key := None)\<rparr>))
               else (Some (item_value it), st1)))"

definition persistentCache_set ::
  "int \<Rightarrow> js_error option \<Rightarrow> string \<Rightarrow> normalized \<Rightarrow> state \<Rightarrow> state" where
  "persistentCache_set now set_throws key v st =
     (let expires_at = now + cacheTTL (config st);
          st1 = st\<lparr>calls := calls st @ [StorageSet key]\<rparr> in
      case set_throws of
        Some e \<Rightarrow>
          st1\<lparr>errorLogs := logError now ''persistentCache.set'' [(''error'', DError e)] (errorLogs st1)\<rparr>
      | None \<Rightarrow> st1\<lparr>storage := (storage st1)(key \<mapsto> \<lparr>item_value = v, expires = expires_at\<rparr>)\<rparr>)"

section \<open>api.lookupMeaning (service-worker.js, lines 161-215)\<close>

text \<open>
  The objects handed to the caller: \<open>{success: true, type?, data, source?}\<close> and
  \<open>{success: false, error}\<close>.
\<close>

datatype 'd response =
    Success (rtype: "string option") (rdata: 'd) (rsource: "string option")
  | Failure string

text \<open>
  The promise a lookup returns is resolved by the lookup itself on a cache hit, and is
  left pending when the lookup has put a request on the rate limiter. The \<open>await\<close>s of
  an \<open>async\<close> function are collapsed: the model runs the function in one step, given
  what the awaited calls produce. A value of the session cache is a record of the
  normalizer, an object, so the test \<open>if (data)\<close> is the test for a hit.
\<close>

datatype 'r promise = Resolved 'r | Pending

text \<open>What \<open>fetch\<close> gives: a rejection, or a response whose \<open>json()\<close> may throw.\<close>

datatype fetch_result =
    Rejected js_error
  | Response (ok: bool) (status: nat) (body: "js_error + json")

text \<open>The key of a term in both caches: \<open>`meaning_${text.toLowerCase()}`\<close>.\<close>

definition cacheKey :: "string \<Rightarrow> string" where
  "cacheKey text = ''meaning_'' @ toLowerCase text"

definition lookupMeaning ::
  "int \<Rightarrow> js_error option \<Rightarrow> js_error option \<Rightarrow> string \<Rightarrow> state
     \<Rightarrow> normalized response promise \<times> state" where
  "lookupMeaning now get_throws remove_throws text st =
     (case LRU_get (cacheKey text) (sessionCache st) of
        (Some d, c) \<Rightarrow>
          (Resolved (Success None d (Some ''session'')), st\<lparr>sessionCache := c\<rparr>)
      | (None, c) \<Rightarrow>
          (case persistentCache_get now get_throws remove_throws (cacheKey text)
                  (st\<lparr>sessionCache := c\<rparr>) of
             (Some d, st2) \<Rightarrow>
               (Resolved (Success None d (Some ''persistent'')),
                st2\<lparr>sessionCache := LRU_set (cacheKey text) d (sessionCache st2)\<rparr>)
           | (None, st2) \<Rightarrow>
               (Pending,
                st2\<lparr>limiter := add (real_of_int now) (LookupRequest text (cacheKey text))
                                   (limiter st2)\<rparr>)))"

text \<open>
  The request a lookup puts on the rate limiter, run at time \<open>now\<close> with what \<open>fetch\<close>
  gives and with whether the storage write throws. Its result resolves the promise of
  the lookup.
\<close>

definition fetch_definition :: "fetch_result \<Rightarrow> js_error + normalized option" where
  "fetch_definition fetched =
     (case fetched of
        Rejected e \<Rightarrow> Inl e
      | Response is_ok code payload \<Rightarrow>
          if \<not> is_ok then Inl (JsError (''HTTP error! status: '' @ show_nat code) [])
          else (case payload of
                  Inl e \<Rightarrow> Inl e
                | Inr rawData \<Rightarrow> sanitizeDictionaryResponse rawData))"

definition run_request ::
  "int \<Rightarrow> fetch_result \<Rightarrow> js_error option \<Rightarrow> request \<Rightarrow> state \<Rightarrow> normalized response \<times> state" where
  "run_request now fetched set_throws req st =
     (let text = req_text req;
          key = req_key req;
          st1 = st\<lparr>calls := calls st @ [Fetch (dictionary (config st) @ text) None]\<rparr>;
          (responseData, st2) =
            (case fetch_definition fetched of
               Inl e \<Rightarrow>
                 (None, st1\<lparr>errorLogs := logError now ''api.lookupMeaning (Primary)''
                                         [(''text'', DString text), (''error'', DString (message e))]
                                         (errorLogs st1)\<rparr>)
             | Inr r \<Rightarrow> (r, st1))
      in case responseData of
           Some d \<Rightarrow>
             (Success (Some ''definition'') d (Some ''api''),
              persistentCache_set now set_throws key d
                (st2\<lparr>sessionCache := LRU_set key d (sessionCache st2)\<rparr>))
         | None \<Rightarrow> (Failure ''Failed to fetch definition.'', st2))"

text \<open>
  One run of the timer callback on the state of the service worker: the request shifted
  off the queue, if there is one, is called.
\<close>

definition dispatch ::
  "int \<Rightarrow> fetch_result \<Rightarrow> js_error option \<Rightarrow> state \<Rightarrow> normalized response option \<times> state" where
  "dispatch now fetched set_throws st =
     (case onInterval (limiter st) of
        (None, r) \<Rightarrow> (None, st\<lparr>limiter := rearm (real_of_int now) r\<rparr>)
      | (Some req, r) \<Rightarrow>
          (case run_request now fetched set_throws req (st\<lparr>limiter := rearm (real_of_int now) r\<rparr>) of
             (res, st') \<Rightarrow> (Some res, st')))"

section \<open>api.rewriteTone (service-worker.js, lines 241-296)\<close>

definition error_details :: "nat \<Rightarrow> js_error + json \<Rightarrow> string" where
  "error_details code payload =
     (let errorDetails = ''HTTP error! status: '' @ show_nat code in
      case payload of
        Inl _ \<Rightarrow> errorDetails
      | Inr errorData \<Rightarrow>
          (case dot errorData ''error'' of
             Inl _ \<Rightarrow> errorDetails
           | Inr err \<Rightarrow>
               if truthy err \<and> truthy (member err ''message'') then
                 (case member err ''message'' of
                    JStr m \<Rightarrow> split_first '' API key'' m
                  | _ \<Rightarrow> errorDetails)
               else errorDetails))"

definition rewrite_attempt :: "fetch_result \<Rightarrow> js_error + string" where
  "rewrite_attempt fetched =
     (case fetched of
        Rejected e \<Rightarrow> Inl e
      | Response is_ok code payload \<Rightarrow>
          if \<not> is_ok then Inl (JsError (error_details code payload) [])
          else (case payload of
                  Inl e \<Rightarrow> Inl e
                | Inr result \<Rightarrow>
                    (case dot result ''candidates'' of
                       Inl e \<Rightarrow> Inl e
                     | Inr candidates \<Rightarrow>
                         (let rewrittenText =
                                opt_dot (opt_index0 (opt_dot (opt_dot (opt_index0 candidates)
                                  ''content'') ''parts'')) ''text'' in
                          if \<not> truthy rewrittenText then
                            (let blockReason = opt_dot (member result ''promptFeedback'') ''blockReason'' in
                             if truthy blockReason
                             then Inl (JsError (''Content blocked by API: '' @ String_of blockReason) [])
                             else Inl (JsError ''Invalid response structure from Gemini API.'' []))
                          else (case rewrittenText of
                                  JStr s \<Rightarrow> Inr (trim s)
                                | _ \<Rightarrow> Inl (TypeError ''rewrittenText.trim is not a function''))))))"

definition rewrite_prompt :: "string \<Rightarrow> string \<Rightarrow> string" where
  "rewrite_prompt text tone =
     ''Rewrite the following text in a '' @ tone @
     '' tone. Provide ONLY the rewritten text, with no additional commentary, introductory phrases, or explanations. Do not include quotation marks around the rewritten text. Original text: ''
     @ [CHR 0x22] @ text @ [CHR 0x22]"

definition rewriteTone ::
  "int \<Rightarrow> fetch_result \<Rightarrow> string \<Rightarrow> string \<Rightarrow> state \<Rightarrow> string response \<times> state" where
  "rewriteTone now fetched text tone st =
     (if \<not> truthy (gemini (config st)) then
        (let errorMessage = ''Gemini API key is not configured.'' in
         (Failure errorMessage,
          st\<lparr>errorLogs := logError now ''api.rewriteTone'' [(''error'', DString errorMessage)]
                              (errorLogs st)\<rparr>))
      else
        (let url = toneRewrite (config st) @ ''?key='' @ String_of (gemini (config st));
             st1 = st\<lparr>calls := calls st @ [Fetch url (Some (rewrite_prompt text tone))]\<rparr> in
         case rewrite_attempt fetched of
           Inr rewritten \<Rightarrow> (Success (Some ''rewritten'') rewritten None, st1)
         | Inl e \<Rightarrow>
             (Failure (message e),
              st1\<lparr>errorLogs := logError now ''api.rewriteTone''
                                  [(''text'', DString text), (''error'', DString (message e))]
                                  (errorLogs st1)\<rparr>)))"

section \<open>Invariants and examples used in the proofs\<close>

text \<open>
  \<open>paced R w\<close> holds of every world reached by a punctual run from the idle rate limiter
  of rate \<open>R\<close>: the rate is unchanged, \<open>isProcessing\<close> is set exactly while the timer is
  armed, the calls so far are spaced by the delay of the timer, and the time the timer is
  set for (or, with no timer, the present time) lies a full delay after every call.
\<close>

definition paced :: "real \<Rightarrow> 'a world \<Rightarrow> bool" where
  "paced R w =
     (requestsPerSecond (pacer w) = R \<and>
      (isProcessing (pacer w) \<longleftrightarrow> timerId (pacer w) \<noteq> None) \<and>
      spaced (timer_delay (1000 / R)) (started w) \<and>
      (case timerId (pacer w) of
         Some tm \<Rightarrow> period tm = timer_delay (1000 / R) \<and>
                   (\<forall>x\<in>set (started w). snd x + timer_delay (1000 / R) \<le> due tm)
       | None \<Rightarrow> (\<forall>x\<in>set (started w). snd x + timer_delay (1000 / R) \<le> time w)))"


text \<open>
  A dictionary response for \<open>hello\<close>, the record the normalizer makes of it, and the
  states of the service worker after a first lookup of \<open>Hello\<close> on cold caches at time 0
  and after the timer has run the queued request at time 200 on that response.
\<close>

definition hello_response :: json where
  "hello_response =
     JArr [JObj [(''word'', JStr ''hello''),
                 (''meanings'', JArr
                    [JObj [(''definitions'', JArr [JObj [(''definition'', JStr ''A greeting'')]]),
                           (''synonyms'', JArr [JStr ''hi'']),
                           (''antonyms'', JArr [])]])]]"

definition example_definition :: normalized where
  "example_definition =
     \<lparr>word = JStr ''hello'', phonetic = JUndefined, meaning = JStr ''A greeting'',
      synonyms = [JStr ''hi''], antonyms = []\<rparr>"

definition after_lookup :: state where
  "after_lookup = snd (lookupMeaning 0 None None ''Hello'' state_init)"

definition after_fetch :: state where
  "after_fetch = snd (dispatch 200 (Response True 200 (Inr hello_response)) None after_lookup)"

section \<open>Properties\<close>

subsection \<open>LRUCache\<close>

lemma stamps_ok_distinct:
  assumes "stamps_ok s" shows "distinct (Map_keys (cache (lru s)))"
proof -
  from assms obtain ts where ts: "map (stamp s) (Map_keys (cache (lru s))) = map Some ts"
    and srt: "sorted_wrt (<) ts" by (auto simp: stamps_ok_def)
  from srt have "distinct ts" by (simp add: strict_sorted_iff)
  then have "distinct (map Some ts)" by (simp add: distinct_map)
  with ts have "distinct (map (stamp s) (Map_keys (cache (lru s))))" by simp
  then show ?thesis by (simp add: distinct_map)
qed

lemma Map_has_iff: "Map_has k m \<longleftrightarrow> k \<in> set (Map_keys m)"
  by (simp add: Map_has_def Map_keys_def map_of_eq_None_iff)

lemma Map_keys_delete: "Map_keys (Map_delete k m) = filter (\<lambda>x. x \<noteq> k) (Map_keys m)"
  by (induction m) (auto simp: Map_keys_def Map_delete_def)

lemma Map_set_absent: "\<not> Map_has k m \<Longrightarrow> Map_set k v m = m @ [(k, v)]"
  by (simp add: Map_set_def)

lemma Map_delete_absent: "\<not> Map_has k m \<Longrightarrow> Map_delete k m = m"
  by (induction m) (auto simp: Map_has_iff Map_keys_def Map_delete_def)

lemma Map_delete_head:
  "distinct (Map_keys (p # m)) \<Longrightarrow> Map_delete (fst p) (p # m) = m"
proof -
  assume d: "distinct (Map_keys (p # m))"
  then have "\<not> Map_has (fst p) m" by (simp add: Map_has_iff Map_keys_def)
  then have "Map_delete (fst p) m = m" by (rule Map_delete_absent)
  then show ?thesis by (simp add: Map_delete_def)
qed

lemma LRU_get_present:
  "Map_has k (cache c) \<Longrightarrow>
   \<exists>v. Map_get k (cache c) = Some v \<and>
       LRU_get k c = (Some v, c\<lparr>cache := Map_delete k (cache c) @ [(k, v)]\<rparr>)"
proof -
  assume h: "Map_has k (cache c)"
  then obtain v where v: "Map_get k (cache c) = Some v"
    by (auto simp: Map_has_def Map_get_def)
  have "\<not> Map_has k (Map_delete k (cache c))"
    by (simp add: Map_has_iff Map_keys_delete)
  then have "Map_set k v (Map_delete k (cache c)) = Map_delete k (cache c) @ [(k, v)]"
    by (rule Map_set_absent)
  with h v show ?thesis by (simp add: LRU_get_def)
qed

lemma LRU_get_absent: "\<not> Map_has k (cache c) \<Longrightarrow> LRU_get k c = (None, c)"
  by (simp add: LRU_get_def)

lemma map_stamp_upd_filter:
  "map (f(k \<mapsto> t)) (filter (\<lambda>x. x \<noteq> k) ks) = map f (filter (\<lambda>x. x \<noteq> k) ks)"
  by (induction ks) auto

lemma map_Some_filter:
  "map f ks = map Some ts \<Longrightarrow>
   \<exists>ts'. map f (filter P ks) = map Some ts' \<and> set ts' \<subseteq> set ts \<and> (sorted_wrt (<) ts \<longrightarrow> sorted_wrt (<) ts')"
proof (induction ks arbitrary: ts)
  case Nil
  then show ?case by simp
next
  case (Cons a ks)
  then obtain t ts0 where ts: "ts = t # ts0" "f a = Some t" "map f ks = map Some ts0"
    by (cases ts) auto
  from Cons.IH[OF ts(3)] obtain ts' where
    ts': "map f (filter P ks) = map Some ts'" "set ts' \<subseteq> set ts0"
         "sorted_wrt (<) ts0 \<longrightarrow> sorted_wrt (<) ts'" by blast
  show ?case
  proof (cases "P a")
    case True
    have "map f (filter P (a # ks)) = map Some (t # ts')" using True ts ts' by simp
    moreover have "set (t # ts') \<subseteq> set ts" using ts ts' by auto
    moreover have "sorted_wrt (<) ts \<longrightarrow> sorted_wrt (<) (t # ts')"
      using ts ts' by auto
    ultimately show ?thesis by blast
  next
    case False
    have "map f (filter P (a # ks)) = map Some ts'" using False ts' by simp
    moreover have "set ts' \<subseteq> set ts" using ts ts' by auto
    moreover have "sorted_wrt (<) ts \<longrightarrow> sorted_wrt (<) ts'" using ts ts' by auto
    ultimately show ?thesis by blast
  qed
qed

lemma stamps_ok_Get:
  assumes "stamps_ok s" shows "stamps_ok (stamped_step (Get k) s)"
proof (cases "Map_has k (cache (lru s))")
  case False
  from assms obtain ts where ts: "map (stamp s) (Map_keys (cache (lru s))) = map Some ts"
    "sorted_wrt (<) ts" "\<forall>t\<in>set ts. t < clock s" by (auto simp: stamps_ok_def)
  have "\<forall>t\<in>set ts. t < Suc (clock s)" using ts(3) by auto
  with ts False show ?thesis
    unfolding stamps_ok_def by (auto simp: LRU_get_absent LRU_has_def)
next
  case True
  from assms obtain ts where ts: "map (stamp s) (Map_keys (cache (lru s))) = map Some ts"
    "sorted_wrt (<) ts" "\<forall>t\<in>set ts. t < clock s" by (auto simp: stamps_ok_def)
  from LRU_get_present[OF True] obtain v where
    g: "LRU_get k (lru s) = (Some v, (lru s)\<lparr>cache := Map_delete k (cache (lru s)) @ [(k, v)]\<rparr>)"
    by blast
  from map_Some_filter[OF ts(1), of "\<lambda>x. x \<noteq> k"] obtain ts' where
    ts': "map (stamp s) (filter (\<lambda>x. x \<noteq> k) (Map_keys (cache (lru s)))) = map Some ts'"
    "set ts' \<subseteq> set ts" "sorted_wrt (<) ts'" using ts(2) by blast
  have keys: "Map_keys (cache (lru (stamped_step (Get k) s)))
              = filter (\<lambda>x. x \<noteq> k) (Map_keys (cache (lru s))) @ [k]"
    using g by (simp add: Map_keys_delete[symmetric]) (simp add: Map_keys_def)
  have st: "stamp (stamped_step (Get k) s) = (stamp s)(k \<mapsto> clock s)"
    using True by (simp add: LRU_has_def)
  have "map (stamp (stamped_step (Get k) s)) (Map_keys (cache (lru (stamped_step (Get k) s))))
        = map Some (ts' @ [clock s])"
    unfolding keys st using ts'(1) by (simp add: map_stamp_upd_filter)
  moreover have "sorted_wrt (<) (ts' @ [clock s])"
    using ts' ts(3) by (auto simp: sorted_wrt_append)
  moreover have "\<forall>t\<in>set (ts' @ [clock s]). t < clock (stamped_step (Get k) s)"
    using ts'(2) ts(3) by (auto simp: less_Suc_eq)
  ultimately show ?thesis unfolding stamps_ok_def by blast
qed

lemma LRU_set_insert:
  assumes d: "distinct (Map_keys (cache c))" and k: "\<not> Map_has k (cache c)"
  shows "cache (LRU_set k v c) =
           (if int (length (cache c)) \<ge> maxSize c then tl (cache c) else cache c) @ [(k, v)]"
proof (cases "cache c")
  case Nil
  then show ?thesis by (simp add: LRU_set_def Map_set_def Map_has_def)
next
  case (Cons p m)
  have m: "Map_delete (fst p) (p # m) = m" using d Cons by (simp add: Map_delete_head)
  have "\<not> Map_has k m" using k Cons by (auto simp: Map_has_iff Map_keys_def)
  then have "Map_set k v m = m @ [(k, v)]" by (rule Map_set_absent)
  moreover have "Map_set k v (cache c) = cache c @ [(k, v)]" using k by (rule Map_set_absent)
  ultimately show ?thesis using Cons m by (simp add: LRU_set_def)
qed

lemma stamps_ok_Set:
  assumes ok: "stamps_ok s" and k: "\<not> LRU_has k (lru s)"
  shows "stamps_ok (stamped_step (Set k v) s)"
proof -
  from ok obtain ts where ts: "map (stamp s) (Map_keys (cache (lru s))) = map Some ts"
    "sorted_wrt (<) ts" "\<forall>t\<in>set ts. t < clock s" by (auto simp: stamps_ok_def)
  let ?m = "if int (length (cache (lru s))) \<ge> maxSize (lru s) then tl (cache (lru s)) else cache (lru s)"
  have c: "cache (LRU_set k v (lru s)) = ?m @ [(k, v)]"
    using stamps_ok_distinct[OF ok] k by (simp add: LRU_set_insert LRU_has_def)
  have nk: "k \<notin> set (Map_keys (cache (lru s)))" using k by (simp add: LRU_has_def Map_has_iff)
  obtain ts' where ts': "map (stamp s) (Map_keys ?m) = map Some ts'" "set ts' \<subseteq> set ts" "sorted_wrt (<) ts'"
  proof (cases "int (length (cache (lru s))) \<ge> maxSize (lru s)")
    case True
    have "map (stamp s) (Map_keys (tl (cache (lru s)))) = map Some (tl ts)"
      using ts(1) by (simp add: Map_keys_def map_tl)
    moreover have "set (tl ts) \<subseteq> set ts" by (cases ts) auto
    moreover have "sorted_wrt (<) (tl ts)" using ts(2) by (cases ts) auto
    ultimately show ?thesis using that True by simp
  next
    case False
    then show ?thesis using that ts by simp
  qed
  have nk': "k \<notin> set (Map_keys ?m)" using nk by (cases "cache (lru s)") (auto simp: Map_keys_def)
  have "map ((stamp s)(k \<mapsto> clock s)) (Map_keys ?m) = map (stamp s) (Map_keys ?m)"
    using nk' by (intro map_cong) auto
  then have "map ((stamp s)(k \<mapsto> clock s)) (Map_keys ?m) = map Some ts'"
    using ts'(1) by simp
  moreover have "Map_keys (cache (LRU_set k v (lru s))) = Map_keys ?m @ [k]"
    unfolding c by (simp add: Map_keys_def)
  ultimately have "map (stamp (stamped_step (Set k v) s)) (Map_keys (cache (lru (stamped_step (Set k v) s))))
        = map Some (ts' @ [clock s])"
    by simp
  moreover have "sorted_wrt (<) (ts' @ [clock s])"
    using ts' ts(3) by (auto simp: sorted_wrt_append)
  moreover have "\<forall>t\<in>set (ts' @ [clock s]). t < clock (stamped_step (Set k v) s)"
    using ts'(2) ts(3) by (auto simp: less_Suc_eq)
  ultimately show ?thesis unfolding stamps_ok_def by blast
qed

lemma stamps_ok_run:
  "stamps_ok s \<Longrightarrow> inserts_only ops s \<Longrightarrow> stamps_ok (stamped_run ops s)"
proof (induction ops arbitrary: s)
  case Nil
  then show ?case by simp
next
  case (Cons x xs)
  show ?case
  proof (cases x)
    case (Get k)
    with Cons.prems have "inserts_only xs (stamped_step (Get k) s)" by simp
    moreover have "stamps_ok (stamped_step (Get k) s)" using Cons.prems(1) by (rule stamps_ok_Get)
    ultimately show ?thesis using Cons.IH Get by simp
  next
    case (Set k v)
    with Cons.prems have a: "\<not> LRU_has k (lru s)" "inserts_only xs (stamped_step (Set k v) s)" by simp_all
    have "stamps_ok (stamped_step (Set k v) s)" using Cons.prems(1) a(1) by (rule stamps_ok_Set)
    then show ?thesis using Cons.IH a(2) Set by simp
  qed
qed

lemma stamps_ok_new: "stamps_ok (stamped_new n)"
  by (simp add: stamps_ok_def stamped_new_def LRUCache_new_def Map_keys_def)

lemma maxSize_step: "maxSize (lru (stamped_step x s)) = maxSize (lru s)"
  by (cases x) (auto simp: LRU_get_def LRU_set_def Let_def split: option.splits)

lemma maxSize_run: "maxSize (lru (stamped_run ops s)) = maxSize (lru s)"
  by (induction ops arbitrary: s) (simp_all add: maxSize_step)


lemma least_recent_head:
  assumes ok: "stamps_ok s" and c: "cache (lru s) = p # m"
  shows "least_recent s (fst p)"
proof -
  from ok obtain ts where ts: "map (stamp s) (Map_keys (cache (lru s))) = map Some ts"
    "sorted_wrt (<) ts" by (auto simp: stamps_ok_def)
  from ts(1) c obtain t ts0 where t: "ts = t # ts0" "stamp s (fst p) = Some t"
    "map (stamp s) (map fst m) = map Some ts0"
    by (cases ts) (auto simp: Map_keys_def)
  have "\<forall>k\<in>set (map fst m). \<exists>b. stamp s k = Some b \<and> t < b"
  proof
    fix k assume "k \<in> set (map fst m)"
    then have "stamp s k \<in> stamp s ` set (map fst m)" by (rule imageI)
    also have "stamp s ` set (map fst m) = set (map (stamp s) (map fst m))" by (simp only: set_map)
    also have "\<dots> = set (map Some ts0)" by (simp only: t(3))
    finally have "stamp s k \<in> Some ` set ts0" by (simp only: set_map)
    then obtain b where "stamp s k = Some b" "b \<in> set ts0" by auto
    then show "\<exists>b. stamp s k = Some b \<and> t < b" using ts(2) t(1) by auto
  qed
  then have "list_all (\<lambda>k. k = fst p \<or> (case (stamp s (fst p), stamp s k) of
                (Some a, Some b) \<Rightarrow> a < b | _ \<Rightarrow> False)) (map fst m)"
    using t(2) by (auto simp: list_all_iff)
  then show ?thesis using c by (simp add: least_recent_def LRU_has_def Map_has_iff Map_keys_def)
qed

lemma least_recent_unique:
  assumes "least_recent s e" "least_recent s e'" shows "e' = e"
proof (rule ccontr)
  assume ne: "e' \<noteq> e"
  from assms have in1: "e \<in> set (Map_keys (cache (lru s)))" and in2: "e' \<in> set (Map_keys (cache (lru s)))"
    by (simp_all add: least_recent_def LRU_has_def Map_has_iff)
  from assms(1) in2 ne have "case (stamp s e, stamp s e') of (Some a, Some b) \<Rightarrow> a < b | _ \<Rightarrow> False"
    by (auto simp: least_recent_def list_all_iff)
  moreover from assms(2) in1 ne have "case (stamp s e', stamp s e) of (Some a, Some b) \<Rightarrow> a < b | _ \<Rightarrow> False"
    by (auto simp: least_recent_def list_all_iff)
  ultimately show False by (auto split: option.splits)
qed

text \<open>
  Claim C2 (as amended). For every capacity \<open>N \<ge> 1\<close> and every run of \<open>get\<close>s and of
  \<open>set\<close>s on keys that are not in the cache at that moment, started on the empty cache:
  a \<open>set\<close> of a new key on a cache that holds \<open>N\<close> entries evicts exactly one entry,
  the one that was accessed least recently (a \<open>get\<close> of a present key counting as an
  access), keeps every other entry in its place and puts the new key last.
\<close>

theorem LRU_set_evicts_least_recent:
  assumes N: "0 < N"
    and ins: "inserts_only ops (stamped_new N)"
    and s: "s = stamped_run ops (stamped_new N)"
    and new: "\<not> LRU_has key (lru s)"
    and full: "int (length (cache (lru s))) \<ge> N"
  shows "\<exists>e. least_recent s e \<and> (\<forall>e'. least_recent s e' \<longrightarrow> e' = e) \<and>
             cache (LRU_set key v (lru s)) = Map_delete e (cache (lru s)) @ [(key, v)] \<and>
             length (cache (LRU_set key v (lru s))) = length (cache (lru s))"
proof -
  have ok: "stamps_ok s" unfolding s using stamps_ok_new ins by (rule stamps_ok_run)
  have mx: "maxSize (lru s) = N" unfolding s by (simp add: maxSize_run stamped_new_def LRUCache_new_def)
  from N full obtain p m where c: "cache (lru s) = p # m" by (cases "cache (lru s)") auto
  have d: "distinct (Map_keys (cache (lru s)))" using ok by (rule stamps_ok_distinct)
  have lr: "least_recent s (fst p)" using ok c by (rule least_recent_head)
  have del: "Map_delete (fst p) (cache (lru s)) = m" using d unfolding c by (rule Map_delete_head)
  have after: "cache (LRU_set key v (lru s)) = m @ [(key, v)]"
    using LRU_set_insert[OF d, of key v] new full mx c by (simp add: LRU_has_def)
  show ?thesis
  proof (intro exI conjI)
    show "least_recent s (fst p)" by (rule lr)
    show "\<forall>e'. least_recent s e' \<longrightarrow> e' = fst p"
      using least_recent_unique[OF lr] by blast
    show "cache (LRU_set key v (lru s)) = Map_delete (fst p) (cache (lru s)) @ [(key, v)]"
      by (simp only: after del)
    show "length (cache (LRU_set key v (lru s))) = length (cache (lru s))"
      by (simp add: after c)
  qed
qed

text \<open>
  The theorem at capacity 2: after \<open>set a\<close>, \<open>set b\<close>, \<open>get a\<close> the least recently
  accessed key is \<open>b\<close>, and \<open>set c\<close> evicts it.
\<close>

theorem LRU_set_evicts_least_recent_witness:
  "least_recent (stamped_run [Set ''a'' (1::nat), Set ''b'' 2, Get ''a''] (stamped_new 2)) ''b'' \<and>
   cache (LRU_set ''c'' 3 (lru (stamped_run [Set ''a'' (1::nat), Set ''b'' 2, Get ''a''] (stamped_new 2))))
     = [(''a'', 1), (''c'', 3)]"
proof -
  let ?ops = "[Set ''a'' (1::nat), Set ''b'' 2, Get ''a'']"
  let ?s = "stamped_run ?ops (stamped_new 2)"
  have c: "cache (lru ?s) = [(''b'', 2), (''a'', 1)]"
    by (simp add: stamped_new_def LRUCache_new_def LRU_set_def LRU_get_def LRU_has_def
        Map_set_def Map_has_def Map_get_def Map_delete_def)
  have h1: "inserts_only ?ops (stamped_new 2)"
    by (simp add: stamped_new_def LRUCache_new_def LRU_set_def LRU_get_def LRU_has_def
        Map_set_def Map_has_def Map_get_def Map_delete_def)
  have h2: "\<not> LRU_has ''c'' (lru ?s)" unfolding LRU_has_def c by (simp add: Map_has_def)
  have h3: "int (length (cache (lru ?s))) \<ge> 2" unfolding c by simp
  from LRU_set_evicts_least_recent[of 2 ?ops ?s "''c''" 3, OF _ h1 refl h2 h3]
  obtain e where e: "least_recent ?s e"
    "cache (LRU_set ''c'' 3 (lru ?s)) = Map_delete e (cache (lru ?s)) @ [(''c'', 3)]" by auto
  from e(1) have "LRU_has e (lru ?s)" by (simp add: least_recent_def)
  then have "e = ''a'' \<or> e = ''b''" unfolding LRU_has_def c by (auto simp: Map_has_def split: if_splits)
  moreover have "\<not> least_recent ?s ''a''"
    by (simp add: least_recent_def c Map_keys_def stamped_new_def LRUCache_new_def LRU_has_def
        LRU_set_def LRU_get_def Map_set_def Map_has_def Map_get_def Map_delete_def)
  ultimately have "e = ''b''" using e(1) by auto
  with e show ?thesis unfolding c by (simp add: Map_delete_def)
qed

text \<open>
  Claim C2 as stated ranges over every run and every capacity, and fails on two of them.
  With capacity 3, the run \<open>set a\<close>, \<open>set b\<close>, \<open>set a\<close>, \<open>set c\<close> leaves \<open>b\<close> the
  least recently accessed key, yet the next insertion evicts \<open>a\<close> and keeps \<open>b\<close>: the
  second \<open>set a\<close> did not move \<open>a\<close>. With capacity 0, the first insertion exceeds the
  capacity and evicts nothing.
\<close>

theorem LRU_recency_counterexample:
  "least_recent (stamped_run [Set ''a'' (1::nat), Set ''b'' 2, Set ''a'' 3, Set ''c'' 4] (stamped_new 3)) ''b'' \<and>
   cache (lru (stamped_run [Set ''a'' (1::nat), Set ''b'' 2, Set ''a'' 3, Set ''c'' 4] (stamped_new 3)))
     = [(''a'', 3), (''b'', 2), (''c'', 4)] \<and>
   cache (LRU_set ''d'' 5 (lru (stamped_run [Set ''a'' (1::nat), Set ''b'' 2, Set ''a'' 3, Set ''c'' 4] (stamped_new 3))))
     = [(''b'', 2), (''c'', 4), (''d'', 5)] \<and>
   cache (LRU_set ''a'' (1::nat) (LRUCache_new 0)) = [(''a'', 1)]"
  by (simp add: least_recent_def Map_keys_def stamped_new_def LRUCache_new_def LRU_has_def
        LRU_set_def LRU_get_def Map_set_def Map_has_def Map_get_def Map_delete_def)

text \<open>
  Claim C3 says that \<open>set\<close> on a key that is present updates the value, makes the key
  most recently used and removes no other entry. The code does neither of the last two:
  on a full cache of capacity 2 holding \<open>a\<close> and \<open>b\<close>, \<open>set(b, 9)\<close> deletes \<open>a\<close>; on a
  cache below capacity, \<open>set(a, 9)\<close> leaves \<open>a\<close> in the oldest position.
\<close>

theorem LRU_set_present_key_evicts:
  "LRU_set ''b'' (9::nat) \<lparr>maxSize = 2, cache = [(''a'', 1), (''b'', 2)]\<rparr>
     = \<lparr>maxSize = 2, cache = [(''b'', 9)]\<rparr> \<and>
   LRU_set ''a'' (9::nat) \<lparr>maxSize = 3, cache = [(''a'', 1), (''b'', 2)]\<rparr>
     = \<lparr>maxSize = 3, cache = [(''a'', 9), (''b'', 2)]\<rparr>"
  by (simp add: LRU_set_def Map_set_def Map_has_def Map_delete_def)

subsection \<open>The normalizer\<close>

lemma svz_JStr: "same_value_zero (JStr s) y \<longleftrightarrow> y = JStr s"
  by (cases y) auto

lemma svz_JStr_right: "same_value_zero x (JStr s) \<longleftrightarrow> x = JStr s"
  by (cases x) auto

lemma Set_add_mem: "JStr s \<in> set (Set_add x acc) \<longleftrightarrow> x = JStr s \<or> JStr s \<in> set acc"
  by (auto simp: Set_add_def list_ex_iff svz_JStr)

lemma Set_add_count:
  "count_list acc (JStr s) \<le> Suc 0 \<Longrightarrow> count_list (Set_add x acc) (JStr s) \<le> Suc 0"
  by (auto simp: Set_add_def list_ex_iff svz_JStr_right count_list_0_iff)

lemma fold_Set_add_mem:
  "JStr s \<in> set (fold Set_add xs acc) \<longleftrightarrow> JStr s \<in> set xs \<or> JStr s \<in> set acc"
  by (induction xs arbitrary: acc) (auto simp: Set_add_mem)

lemma fold_Set_add_count:
  "count_list acc (JStr s) \<le> Suc 0 \<Longrightarrow> count_list (fold Set_add xs acc) (JStr s) \<le> Suc 0"
proof (induction xs arbitrary: acc)
  case Nil
  then show ?case by simp
next
  case (Cons a xs)
  have "count_list (Set_add a acc) (JStr s) \<le> Suc 0" using Cons.prems by (rule Set_add_count)
  then have "count_list (fold Set_add xs (Set_add a acc)) (JStr s) \<le> Suc 0" by (rule Cons.IH)
  then show ?case by simp
qed

lemma forEach_add_mem:
  "forEach_add name v acc = Inr acc' \<Longrightarrow>
   JStr s \<in> set acc' \<longleftrightarrow> JStr s \<in> set acc \<or> (case v of JArr xs \<Rightarrow> JStr s \<in> set xs | _ \<Rightarrow> False)"
  by (cases v) (auto simp: forEach_add_def fold_Set_add_mem)

lemma forEach_add_count:
  "forEach_add name v acc = Inr acc' \<Longrightarrow> count_list acc (JStr s) \<le> Suc 0 \<Longrightarrow>
   count_list acc' (JStr s) \<le> Suc 0"
  by (cases v) (auto simp: forEach_add_def intro: fold_Set_add_count)

lemma collect_sound:
  "collect ms (syn, ant) = Inr (syn', ant') \<Longrightarrow>
   (JStr s \<in> set syn' \<longleftrightarrow> JStr s \<in> set syn \<or> listed ''synonyms'' ms (JStr s)) \<and>
   (JStr s \<in> set ant' \<longleftrightarrow> JStr s \<in> set ant \<or> listed ''antonyms'' ms (JStr s)) \<and>
   (count_list syn (JStr s) \<le> Suc 0 \<longrightarrow> count_list syn' (JStr s) \<le> Suc 0) \<and>
   (count_list ant (JStr s) \<le> Suc 0 \<longrightarrow> count_list ant' (JStr s) \<le> Suc 0)"
proof (induction ms arbitrary: syn ant)
  case Nil
  then show ?case by (simp add: listed_def)
next
  case (Cons m ms)
  from Cons.prems obtain syn1 ant1 where
    nn: "\<not> nullish m"
    and s1: "forEach_add ''m.synonyms'' (member m ''synonyms'') syn = Inr syn1"
    and a1: "forEach_add ''m.antonyms'' (member m ''antonyms'') ant = Inr ant1"
    and rest: "collect ms (syn1, ant1) = Inr (syn', ant')"
    by (auto simp: dot_def split: if_splits sum.splits)
  note ih = Cons.IH[OF rest]
  have l1: "listed ''synonyms'' (m # ms) (JStr s) \<longleftrightarrow>
      (case member m ''synonyms'' of JArr xs \<Rightarrow> JStr s \<in> set xs | _ \<Rightarrow> False) \<or> listed ''synonyms'' ms (JStr s)"
    by (simp add: listed_def)
  have l2: "listed ''antonyms'' (m # ms) (JStr s) \<longleftrightarrow>
      (case member m ''antonyms'' of JArr xs \<Rightarrow> JStr s \<in> set xs | _ \<Rightarrow> False) \<or> listed ''antonyms'' ms (JStr s)"
    by (simp add: listed_def)
  show ?case
    using ih forEach_add_mem[OF s1, of s] forEach_add_mem[OF a1, of s]
      forEach_add_count[OF s1, of s] forEach_add_count[OF a1, of s]
    unfolding l1 l2 by blast
qed

lemma forEach_add_total:
  "array_or_absent v \<Longrightarrow> \<exists>acc'. forEach_add name v acc = Inr acc'"
  by (cases v) (auto simp: forEach_add_def)

lemma collect_total:
  "list_all meaning_group ms \<Longrightarrow> \<exists>r. collect ms acc = Inr r"
proof (induction ms arbitrary: acc)
  case Nil
  then show ?case by simp
next
  case (Cons m ms)
  obtain syn ant where acc: "acc = (syn, ant)" by (cases acc)
  from Cons.prems have mg: "meaning_group m" and ms: "list_all meaning_group ms"
    by simp_all
  from mg have m: "\<not> nullish m" "array_or_absent (member m ''synonyms'')"
    "array_or_absent (member m ''antonyms'')"
    by (simp_all add: meaning_group_def)
  from forEach_add_total[OF m(2)] obtain syn1 where
    s1: "forEach_add ''m.synonyms'' (member m ''synonyms'') syn = Inr syn1" by blast
  from forEach_add_total[OF m(3)] obtain ant1 where
    a1: "forEach_add ''m.antonyms'' (member m ''antonyms'') ant = Inr ant1" by blast
  from Cons.IH[OF ms] obtain r where "collect ms (syn1, ant1) = Inr r" by blast
  then show ?case using m(1) s1 a1 acc by (simp add: dot_def)
qed

lemma find_text_total:
  "list_all (\<lambda>p. \<not> nullish p) ps \<Longrightarrow> \<exists>p. find_text ps = Inr p"
  by (induction ps) (auto simp: dot_def)

lemma phonetic_of_total:
  "phonetics_ok fr \<Longrightarrow> \<exists>ph. phonetic_of fr = Inr ph"
proof (cases "truthy (member fr ''phonetic'')")
  case True
  then show ?thesis by (simp add: phonetic_of_def)
next
  case False
  assume "phonetics_ok fr"
  with False show ?thesis
    by (cases "member fr ''phonetics''")
       (auto simp: phonetic_of_def phonetics_ok_def dest: find_text_total split: sum.splits)
qed

lemma sanitize_total:
  assumes "dictionary_entry fr" "truthy (first_definition (member fr ''meanings''))"
  shows "\<exists>r. sanitizeDictionaryResponse (JArr (fr # rest)) = Inr (Some r)"
proof -
  from assms(1) obtain ms where nn: "\<not> nullish fr" and ms: "member fr ''meanings'' = JArr ms"
    "list_all meaning_group ms" and ph: "phonetics_ok fr"
    by (auto simp: dictionary_entry_def split: json.splits)
  from collect_total[OF ms(2)] obtain syn ant where c: "collect ms ([], []) = Inr (syn, ant)"
    by (metis surj_pair)
  from phonetic_of_total[OF ph] obtain p where p: "phonetic_of fr = Inr p" by blast
  show ?thesis
    using nn ms(1) c p assms(2)
    by (simp add: sanitizeDictionaryResponse_def dot_def meanings_forEach_def)
qed

lemma sanitize_record:
  assumes "sanitizeDictionaryResponse data = Inr (Some r)"
  shows "\<exists>fr rest ms. data = JArr (fr # rest) \<and> member fr ''meanings'' = JArr ms \<and>
           meaning r = first_definition (JArr ms) \<and> truthy (meaning r) \<and>
           collect ms ([], []) = Inr (synonyms r, antonyms r)"
proof -
  from assms obtain fr rest where d: "data = JArr (fr # rest)"
    by (auto simp: sanitizeDictionaryResponse_def split: json.splits list.splits)
  from assms d have nn: "\<not> nullish fr"
    by (auto simp: sanitizeDictionaryResponse_def dot_def split: if_splits)
  let ?m = "member fr ''meanings''"
  from assms d nn have t: "truthy (first_definition ?m)"
    by (auto simp: sanitizeDictionaryResponse_def dot_def split: if_splits)
  from assms d nn t obtain syn ant ph where
    mf: "meanings_forEach ?m = Inr (syn, ant)" and "phonetic_of fr = Inr ph"
    and r: "r = \<lparr>word = member fr ''word'', phonetic = ph, meaning = first_definition ?m,
                synonyms = syn, antonyms = ant\<rparr>"
    by (auto simp: sanitizeDictionaryResponse_def dot_def split: sum.splits)
  from t have "\<not> nullish ?m"
    by (cases ?m) (auto simp: first_definition_def opt_index0_def opt_dot_def)
  with mf obtain ms where ms: "?m = JArr ms" "collect ms ([], []) = Inr (syn, ant)"
    by (cases ?m) (auto simp: meanings_forEach_def)
  show ?thesis using d ms t r by auto
qed

text \<open>
  Claim C8. Whenever the normalizer returns a record, the input is a non-empty array whose
  first result has an array of meaning groups and a truthy first definition, and every
  string occurs in \<open>synonyms\<close> exactly once when some meaning group of the first result
  lists it among its synonyms (any group, not only the first) and not at all otherwise;
  likewise for \<open>antonyms\<close>. A first result of the shape a dictionary response has, with
  a truthy first definition, does give a record. An input that is not an array, an empty
  array, and an object first result whose first definition is missing or falsy give
  \<open>null\<close>.
\<close>

theorem sanitize_synonyms_union:
  "(dictionary_entry firstResult \<and> truthy (first_definition (member firstResult ''meanings''))
      \<longrightarrow> (\<exists>r. sanitizeDictionaryResponse (JArr (firstResult # rest)) = Inr (Some r))) \<and>
   (sanitizeDictionaryResponse data = Inr (Some r)
      \<longrightarrow> (\<exists>fr tl ms. data = JArr (fr # tl) \<and> member fr ''meanings'' = JArr ms \<and>
             truthy (meaning r) \<and>
             (\<forall>s. count_list (synonyms r) (JStr s) = (if listed ''synonyms'' ms (JStr s) then 1 else 0)) \<and>
             (\<forall>s. count_list (antonyms r) (JStr s) = (if listed ''antonyms'' ms (JStr s) then 1 else 0)))) \<and>
   ((\<forall>xs. data \<noteq> JArr xs) \<or> data = JArr [] \<longrightarrow> sanitizeDictionaryResponse data = Inr None) \<and>
   (\<not> nullish firstResult \<and> \<not> truthy (first_definition (member firstResult ''meanings''))
      \<longrightarrow> sanitizeDictionaryResponse (JArr (firstResult # rest)) = Inr None)"
proof (intro conjI impI)
  assume "dictionary_entry firstResult \<and> truthy (first_definition (member firstResult ''meanings''))"
  then show "\<exists>r. sanitizeDictionaryResponse (JArr (firstResult # rest)) = Inr (Some r)"
    using sanitize_total by blast
next
  assume "sanitizeDictionaryResponse data = Inr (Some r)"
  from sanitize_record[OF this] obtain fr tl ms where
    d: "data = JArr (fr # tl)" "member fr ''meanings'' = JArr ms" "truthy (meaning r)"
    and c: "collect ms ([], []) = Inr (synonyms r, antonyms r)" by blast
  have cnt: "count_list xs x \<le> Suc 0 \<Longrightarrow> count_list xs x = (if x \<in> set xs then 1 else 0)" for xs and x :: json
    using count_list_0_iff[of xs x] by (cases "x \<in> set xs") auto
  have "\<forall>s. count_list (synonyms r) (JStr s) = (if listed ''synonyms'' ms (JStr s) then 1 else 0)"
  proof
    fix s
    from collect_sound[OF c, of s] have "count_list (synonyms r) (JStr s) \<le> Suc 0"
      and "JStr s \<in> set (synonyms r) \<longleftrightarrow> listed ''synonyms'' ms (JStr s)" by simp_all
    then show "count_list (synonyms r) (JStr s) = (if listed ''synonyms'' ms (JStr s) then 1 else 0)"
      using cnt[of "synonyms r" "JStr s"] by simp
  qed
  moreover have "\<forall>s. count_list (antonyms r) (JStr s) = (if listed ''antonyms'' ms (JStr s) then 1 else 0)"
  proof
    fix s
    from collect_sound[OF c, of s] have "count_list (antonyms r) (JStr s) \<le> Suc 0"
      and "JStr s \<in> set (antonyms r) \<longleftrightarrow> listed ''antonyms'' ms (JStr s)" by simp_all
    then show "count_list (antonyms r) (JStr s) = (if listed ''antonyms'' ms (JStr s) then 1 else 0)"
      using cnt[of "antonyms r" "JStr s"] by simp
  qed
  ultimately show "\<exists>fr tl ms. data = JArr (fr # tl) \<and> member fr ''meanings'' = JArr ms \<and>
             truthy (meaning r) \<and>
             (\<forall>s. count_list (synonyms r) (JStr s) = (if listed ''synonyms'' ms (JStr s) then 1 else 0)) \<and>
             (\<forall>s. count_list (antonyms r) (JStr s) = (if listed ''antonyms'' ms (JStr s) then 1 else 0))"
    using d by blast
next
  assume "(\<forall>xs. data \<noteq> JArr xs) \<or> data = JArr []"
  then show "sanitizeDictionaryResponse data = Inr None"
    by (cases data) (auto simp: sanitizeDictionaryResponse_def)
next
  assume "\<not> nullish firstResult \<and> \<not> truthy (first_definition (member firstResult ''meanings''))"
  then show "sanitizeDictionaryResponse (JArr (firstResult # rest)) = Inr None"
    by (simp add: sanitizeDictionaryResponse_def dot_def)
qed


lemmas sanitize_defs =
  sanitizeDictionaryResponse_def dot_def meanings_forEach_def first_definition_def
  opt_dot_def opt_index0_def forEach_add_def Set_add_def phonetic_of_def TypeError_def

text \<open>
  The theorem on a response with two meaning groups that both list \<open>glad\<close>: the record
  holds \<open>glad\<close> once; an empty array, an error object and an entry without meanings give
  \<open>null\<close>.
\<close>

theorem sanitize_synonyms_union_witness:
  "dictionary_entry
     (JObj [(''word'', JStr ''happy''),
            (''meanings'', JArr
               [JObj [(''definitions'', JArr [JObj [(''definition'', JStr ''Feeling joy'')]]),
                      (''synonyms'', JArr [JStr ''glad'', JStr ''merry'']),
                      (''antonyms'', JArr [JStr ''sad''])],
                JObj [(''synonyms'', JArr [JStr ''glad'']),
                      (''antonyms'', JArr [JStr ''sad'', JStr ''blue''])]])]) \<and>
   sanitizeDictionaryResponse (JArr
     [JObj [(''word'', JStr ''happy''),
            (''meanings'', JArr
               [JObj [(''definitions'', JArr [JObj [(''definition'', JStr ''Feeling joy'')]]),
                      (''synonyms'', JArr [JStr ''glad'', JStr ''merry'']),
                      (''antonyms'', JArr [JStr ''sad''])],
                JObj [(''synonyms'', JArr [JStr ''glad'']),
                      (''antonyms'', JArr [JStr ''sad'', JStr ''blue''])]])]])
     = Inr (Some \<lparr>word = JStr ''happy'', phonetic = JUndefined, meaning = JStr ''Feeling joy'',
                  synonyms = [JStr ''glad'', JStr ''merry''],
                  antonyms = [JStr ''sad'', JStr ''blue'']\<rparr>) \<and>
   count_list [JStr ''glad'', JStr ''merry''] (JStr ''glad'') = 1 \<and>
   sanitizeDictionaryResponse (JArr []) = Inr None \<and>
   sanitizeDictionaryResponse (JObj [(''title'', JStr ''No Definitions Found'')]) = Inr None \<and>
   sanitizeDictionaryResponse (JArr [JObj [(''word'', JStr ''x''), (''meanings'', JArr [])]]) = Inr None"
proof -
  let ?g1 = "JObj [(''definitions'', JArr [JObj [(''definition'', JStr ''Feeling joy'')]]),
                   (''synonyms'', JArr [JStr ''glad'', JStr ''merry'']),
                   (''antonyms'', JArr [JStr ''sad''])]"
  let ?g2 = "JObj [(''synonyms'', JArr [JStr ''glad'']),
                   (''antonyms'', JArr [JStr ''sad'', JStr ''blue''])]"
  let ?fr = "JObj [(''word'', JStr ''happy''), (''meanings'', JArr [?g1, ?g2])]"
  let ?r = "\<lparr>word = JStr ''happy'', phonetic = JUndefined, meaning = JStr ''Feeling joy'',
             synonyms = [JStr ''glad'', JStr ''merry''],
             antonyms = [JStr ''sad'', JStr ''blue'']\<rparr>"
  let ?x = "JObj [(''word'', JStr ''x''), (''meanings'', JArr [])]"
  note th = sanitize_synonyms_union[of ?fr "[]" "JArr [?fr]" ?r]
  have de: "dictionary_entry ?fr"
    by (simp add: dictionary_entry_def meaning_group_def phonetics_ok_def)
  have tr: "truthy (first_definition (member ?fr ''meanings''))"
    by (simp add: first_definition_def opt_dot_def opt_index0_def)
  from th de tr obtain r where r: "sanitizeDictionaryResponse (JArr [?fr]) = Inr (Some r)"
    by blast
  then have r': "r = ?r" by (simp add: sanitize_defs)
  from th r r' obtain fr tl ms where
    f: "JArr [?fr] = JArr (fr # tl)" "member fr ''meanings'' = JArr ms"
    and cnt: "\<forall>s. count_list (synonyms ?r) (JStr s) = (if listed ''synonyms'' ms (JStr s) then 1 else 0)"
    by blast
  from f(1) have "fr = ?fr" by simp
  with f(2) have ms: "ms = [?g1, ?g2]" by simp
  have "listed ''synonyms'' ms (JStr ''glad'')" unfolding ms by (simp add: listed_def)
  with cnt have c1: "count_list (synonyms ?r) (JStr ''glad'') = 1" by simp
  have e1: "sanitizeDictionaryResponse (JArr []) = Inr None"
    using sanitize_synonyms_union[of ?fr "[]" "JArr []" ?r] by simp
  have e2: "sanitizeDictionaryResponse (JObj [(''title'', JStr ''No Definitions Found'')]) = Inr None"
    using sanitize_synonyms_union[of ?fr "[]" "JObj [(''title'', JStr ''No Definitions Found'')]" ?r] by simp
  have "\<not> nullish ?x \<and> \<not> truthy (first_definition (member ?x ''meanings''))"
    by (simp add: first_definition_def opt_dot_def opt_index0_def)
  then have e3: "sanitizeDictionaryResponse (JArr [?x]) = Inr None"
    using sanitize_synonyms_union[of ?x "[]" "JArr []" ?r] by blast
  show ?thesis using de r r' c1 e1 e2 e3 by simp
qed

text \<open>
  Outside the shape of a dictionary response the normalizer can throw instead of
  returning: on a first result that is \<open>null\<close>, and on a meaning group whose
  \<open>synonyms\<close> is not an array. \<open>lookupMeaning\<close> catches the error and reports a failed
  lookup.
\<close>

lemma sanitize_throws_outside_shape:
  "sanitizeDictionaryResponse (JArr [JNull])
     = Inl (TypeError ''Cannot read properties of null or undefined: meanings'') \<and>
   sanitizeDictionaryResponse (JArr [JObj [(''meanings'', JArr
       [JObj [(''definitions'', JArr [JObj [(''definition'', JStr ''d'')]]),
              (''synonyms'', JStr ''glad'')]])]])
     = Inl (TypeError ''m.synonyms.forEach is not a function'')"
  by (simp add: sanitize_defs)

subsection \<open>The rate limiter\<close>

lemma timer_delay_nonneg: "0 \<le> timer_delay ms"
  by (simp add: timer_delay_def)

lemma timer_delay_in_range:
  assumes "0 \<le> ms" and "ms < 2 ^ 31"
  shows "timer_delay ms = real_of_int \<lfloor>ms\<rfloor>"
proof -
  have lo: "0 \<le> \<lfloor>ms\<rfloor>" using assms(1) by simp
  have "\<lfloor>ms\<rfloor> < 2 ^ 31" using assms(2) by (simp add: floor_less_iff)
  then have hi: "\<lfloor>ms\<rfloor> < 2147483648" by simp
  then have "\<lfloor>ms\<rfloor> < 4294967296" by simp
  with lo have m: "\<lfloor>ms\<rfloor> mod 4294967296 = \<lfloor>ms\<rfloor>" by simp
  have "IntegerPart ms = \<lfloor>ms\<rfloor>" using assms(1) by (simp add: IntegerPart_def)
  then have "ToInt32 ms = \<lfloor>ms\<rfloor>" using m hi by (simp add: ToInt32_def Let_def)
  then show ?thesis using lo by (simp add: timer_delay_def)
qed

lemma spaced_snoc:
  "spaced g (xs @ [y]) \<longleftrightarrow> spaced g xs \<and> (xs = [] \<or> snd (last xs) + g \<le> snd y)"
  by (induction g xs rule: spaced.induct) auto

lemma paced_init: "paced R (world_init R)"
  by (simp add: paced_def world_init_def rateLimiter_init_def)

lemma paced_step:
  assumes p: "paced R w" and s: "step e w = Some w'" and o: "on_time e w"
  shows "paced R w'"
proof (cases e)
  case (Add t a)
  with s have t: "time w \<le> t" and w': "w' = w\<lparr>time := t, pacer := add t a (pacer w)\<rparr>"
    by (auto split: if_splits)
  show ?thesis
  proof (cases "isProcessing (pacer w)")
    case True
    with p obtain tm where tm: "timerId (pacer w) = Some tm" by (auto simp: paced_def)
    from True have "add t a (pacer w) = (pacer w)\<lparr>queue := queue (pacer w) @ [a]\<rparr>"
      by (simp add: add_def processQueue_def)
    with p tm True show ?thesis unfolding w' by (simp add: paced_def)
  next
    case False
    with p have none: "timerId (pacer w) = None" by (auto simp: paced_def)
    from False have a: "add t a (pacer w) =
       (pacer w)\<lparr>queue := queue (pacer w) @ [a], isProcessing := True,
                 timerId := Some (setInterval t (1000 / requestsPerSecond (pacer w)))\<rparr>"
      by (simp add: add_def processQueue_def)
    have g: "0 \<le> timer_delay (1000 / R)" by (rule timer_delay_nonneg)
    from p none have old: "\<forall>x\<in>set (started w). snd x + timer_delay (1000 / R) \<le> time w"
      by (simp add: paced_def)
    have "\<forall>x\<in>set (started w). snd x + timer_delay (1000 / R) \<le> t + timer_delay (1000 / R)"
    proof
      fix x assume "x \<in> set (started w)"
      with old have "snd x + timer_delay (1000 / R) \<le> time w" by blast
      with t g show "snd x + timer_delay (1000 / R) \<le> t + timer_delay (1000 / R)" by linarith
    qed
    with p show ?thesis unfolding w' a by (simp add: paced_def setInterval_def)
  qed
next
  case (Tick t)
  with s obtain tm where t: "time w \<le> t" and tm: "timerId (pacer w) = Some tm"
    by (auto split: if_splits option.splits)
  from o Tick tm have d: "due tm \<le> t" by simp
  from p tm have per: "period tm = timer_delay (1000 / R)"
    and old: "\<forall>x\<in>set (started w). snd x + timer_delay (1000 / R) \<le> due tm"
    and sp: "spaced (timer_delay (1000 / R)) (started w)" and ip: "isProcessing (pacer w)"
    and rr: "requestsPerSecond (pacer w) = R"
    by (auto simp: paced_def)
  have g: "0 \<le> timer_delay (1000 / R)" by (rule timer_delay_nonneg)
  show ?thesis
  proof (cases "queue (pacer w)")
    case Nil
    with s Tick t tm have w': "w' = w\<lparr>time := t, pacer := (pacer w)\<lparr>isProcessing := False, timerId := None\<rparr>\<rparr>"
      by (auto simp: onInterval_def rearm_def)
    have "\<forall>x\<in>set (started w). snd x + timer_delay (1000 / R) \<le> t" using old d by fastforce
    with sp rr show ?thesis unfolding w' by (simp add: paced_def)
  next
    case (Cons a q)
    with s Tick t tm have w': "w' = w\<lparr>time := t,
        pacer := (pacer w)\<lparr>queue := q, timerId := Some (tm\<lparr>due := t + period tm\<rparr>)\<rparr>,
        started := started w @ [(a, t)], running := running w @ [a]\<rparr>"
      by (simp add: onInterval_def rearm_def)
    have le: "\<forall>x\<in>set (started w). snd x + timer_delay (1000 / R) \<le> t" using old d by fastforce
    have "started w = [] \<or> snd (last (started w)) + timer_delay (1000 / R) \<le> t"
    proof (cases "started w = []")
      case True
      then show ?thesis by simp
    next
      case False
      then have "last (started w) \<in> set (started w)" by (rule last_in_set)
      with le show ?thesis by blast
    qed
    with sp have sp': "spaced (timer_delay (1000 / R)) (started w @ [(a, t)])"
      by (simp add: spaced_snoc)
    have "\<forall>x\<in>set (started w @ [(a, t)]). snd x + timer_delay (1000 / R) \<le> t + timer_delay (1000 / R)"
    proof
      fix x assume "x \<in> set (started w @ [(a, t)])"
      then have "x \<in> set (started w) \<or> x = (a, t)" by auto
      then show "snd x + timer_delay (1000 / R) \<le> t + timer_delay (1000 / R)"
      proof
        assume "x \<in> set (started w)"
        with le have "snd x + timer_delay (1000 / R) \<le> t" by blast
        with g show ?thesis by linarith
      next
        assume "x = (a, t)"
        then show ?thesis by simp
      qed
    qed
    with sp' rr ip per show ?thesis unfolding w' by (simp add: paced_def)
  qed
next
  case (Settle t a)
  with s have t: "time w \<le> t" and w': "w' = w\<lparr>time := t, running := remove1 a (running w)\<rparr>"
    by (auto split: if_splits)
  show ?thesis
  proof (cases "timerId (pacer w)")
    case None
    with p have "\<forall>x\<in>set (started w). snd x + timer_delay (1000 / R) \<le> time w" by (simp add: paced_def)
    with t have "\<forall>x\<in>set (started w). snd x + timer_delay (1000 / R) \<le> t" by fastforce
    with p None show ?thesis unfolding w' by (simp add: paced_def)
  next
    case (Some tm)
    with p show ?thesis unfolding w' by (simp add: paced_def)
  qed
qed

lemma paced_run:
  "paced R w \<Longrightarrow> punctual es w \<Longrightarrow> run es w = Some w' \<Longrightarrow> paced R w'"
proof (induction es arbitrary: w)
  case Nil
  then show ?case by simp
next
  case (Cons e es)
  from Cons.prems(3) obtain w1 where s: "step e w = Some w1" and r: "run es w1 = Some w'"
    by (auto split: option.splits)
  from Cons.prems(2) s have o: "on_time e w" and pu: "punctual es w1" by simp_all
  have "paced R w1" using Cons.prems(1) s o by (rule paced_step)
  with Cons.IH pu r show ?case by blast
qed

lemma fifo_step:
  assumes "step e w = Some w'"
  shows "map fst (started w') @ queue (pacer w') = map fst (started w) @ queue (pacer w) @ added [e]"
proof (cases e)
  case (Add t a)
  with assms show ?thesis
    by (auto simp: add_def processQueue_def split: if_splits)
next
  case (Tick t)
  with assms show ?thesis
    by (cases "queue (pacer w)")
       (auto simp: onInterval_def rearm_def split: if_splits option.splits)
next
  case (Settle t a)
  with assms show ?thesis by (auto split: if_splits)
qed

lemma added_Cons: "added (e # es) = added [e] @ added es"
  by (cases e) simp_all

lemma fifo_run:
  "run es w = Some w' \<Longrightarrow>
   map fst (started w') @ queue (pacer w') = map fst (started w) @ queue (pacer w) @ added es"
proof (induction es arbitrary: w)
  case Nil
  then show ?case by simp
next
  case (Cons e es)
  from Cons.prems obtain w1 where s: "step e w = Some w1" and r: "run es w1 = Some w'"
    by (auto split: option.splits)
  from Cons.IH[OF r] fifo_step[OF s] show ?case
    by (simp add: added_Cons[of e es])
qed

lemma ticks_step:
  assumes "step e w = Some w'"
  shows "length (started w') \<le> length (started w) + ticks [e]"
proof (cases e)
  case (Add t a)
  with assms show ?thesis by (auto split: if_splits)
next
  case (Tick t)
  with assms show ?thesis
    by (cases "queue (pacer w)") (auto simp: onInterval_def split: if_splits option.splits)
next
  case (Settle t a)
  with assms show ?thesis by (auto split: if_splits)
qed

lemma ticks_Cons: "ticks (e # es) = ticks [e] + ticks es"
  by (cases e) simp_all

lemma ticks_run:
  "run es w = Some w' \<Longrightarrow> length (started w') \<le> length (started w) + ticks es"
proof (induction es arbitrary: w)
  case Nil
  then show ?case by simp
next
  case (Cons e es)
  from Cons.prems obtain w1 where s: "step e w = Some w1" and r: "run es w1 = Some w'"
    by (auto split: option.splits)
  from Cons.IH[OF r] ticks_step[OF s] show ?case
    by (simp add: ticks_Cons[of e es])
qed

text \<open>
  Claim C6 (as amended). For every rate \<open>R\<close> and every run of events from the idle rate
  limiter (requests added at any times, runs of the timer callback at any times, requests
  settling): the requests called so far, followed by the queue, are the requests added,
  in the order of their adding, so requests are called in exactly their enqueue order,
  and no more requests are called than the callback has run.
  The service worker itself keeps no time: it hands the delay \<open>1000 / R\<close> to one interval
  timer and calls one request per run of its callback. When the run is punctual (the
  platform never runs the callback before the time the timer was set for), any two
  consecutive calls are at least the delay of the timer apart, and that delay is
  \<open>1000 / R\<close> cut to a whole number of milliseconds (for \<open>0 < R\<close> and
  \<open>1000 / R < 2^31\<close>): 200 at the default rate 5, 333 at rate 3.
\<close>

theorem pacer_fifo_spaced:
  "(run es (world_init R) = Some w \<longrightarrow>
      map fst (started w) @ queue (pacer w) = added es \<and>
      length (started w) \<le> ticks es) \<and>
   (run es (world_init R) = Some w \<and> punctual es (world_init R) \<longrightarrow>
      spaced (timer_delay (1000 / R)) (started w)) \<and>
   (0 < R \<and> 1000 / R < 2 ^ 31 \<longrightarrow> timer_delay (1000 / R) = real_of_int \<lfloor>1000 / R\<rfloor>) \<and>
   timer_delay (1000 / 5) = 200"
proof (intro conjI impI)
  assume r: "run es (world_init R) = Some w"
  from fifo_run[OF r]
  show "map fst (started w) @ queue (pacer w) = added es"
    by (simp add: world_init_def rateLimiter_init_def)
  from ticks_run[OF r]
  show "length (started w) \<le> ticks es"
    by (simp add: world_init_def)
next
  assume h: "run es (world_init R) = Some w \<and> punctual es (world_init R)"
  have "paced R w" using paced_init h by (blast intro: paced_run)
  then show "spaced (timer_delay (1000 / R)) (started w)" by (simp add: paced_def)
next
  assume h: "0 < R \<and> 1000 / R < 2 ^ 31"
  then have "0 \<le> 1000 / R" by simp
  with h show "timer_delay (1000 / R) = real_of_int \<lfloor>1000 / R\<rfloor>"
    by (simp add: timer_delay_in_range)
next
  have "timer_delay 200 = real_of_int \<lfloor>200::real\<rfloor>" by (rule timer_delay_in_range) simp_all
  then show "timer_delay (1000 / 5) = 200" by simp
qed

lemma timer_delay_200: "timer_delay 200 = 200"
proof -
  have "timer_delay 200 = real_of_int \<lfloor>200::real\<rfloor>" by (rule timer_delay_in_range) simp_all
  then show ?thesis by simp
qed

lemma timer_delay_third: "timer_delay (1000 / 3) = 333"
proof -
  have "timer_delay (1000 / 3) = real_of_int \<lfloor>1000 / 3 :: real\<rfloor>"
    by (rule timer_delay_in_range) simp_all
  then show ?thesis by simp
qed

lemmas pacer_defs = world_init_def rateLimiter_init_def add_def processQueue_def
  setInterval_def onInterval_def rearm_def timer_delay_200 timer_delay_third

lemma run_example:
  "run [Add 0 (1::nat), Add 10 2, Tick 200, Tick 400, Tick 600, Add 900 3, Tick 1100] (world_init 5)
   = Some \<lparr>pacer = \<lparr>queue = [], isProcessing = True, requestsPerSecond = 5,
                     timerId = Some \<lparr>period = 200, due = 1300\<rparr>\<rparr>,
           time = 1100, started = [(1, 200), (2, 400), (3, 1100)], running = [1, 2, 3]\<rparr>"
  by (simp add: pacer_defs)

lemma run_example_punctual:
  "punctual [Add 0 (1::nat), Add 10 2, Tick 200, Tick 400, Tick 600, Add 900 3, Tick 1100] (world_init 5)"
  by (simp add: pacer_defs)

text \<open>
  The theorem at rate 5 on three requests, the third added after the queue had drained,
  in a punctual run: they are called in order at 200, 400 and 1100.
\<close>

theorem pacer_fifo_spaced_witness:
  "map_option started
     (run [Add 0 (1::nat), Add 10 2, Tick 200, Tick 400, Tick 600, Add 900 3, Tick 1100] (world_init 5))
     = Some [(1, 200), (2, 400), (3, 1100)] \<and>
   punctual [Add 0 (1::nat), Add 10 2, Tick 200, Tick 400, Tick 600, Add 900 3, Tick 1100] (world_init 5) \<and>
   added [Add 0 (1::nat), Add 10 2, Tick 200, Tick 400, Tick 600, Add 900 3, Tick 1100] = [1, 2, 3] \<and>
   spaced (timer_delay (1000 / 5)) [(1::nat, 200), (2, 400), (3, 1100)] \<and>
   timer_delay (1000 / 5) = real_of_int \<lfloor>1000 / 5 :: real\<rfloor> \<and>
   timer_delay (1000 / 5) = 200"
proof -
  let ?es = "[Add 0 (1::nat), Add 10 2, Tick 200, Tick 400, Tick 600, Add 900 3, Tick 1100]"
  let ?w = "\<lparr>pacer = \<lparr>queue = ([]::nat list), isProcessing = True, requestsPerSecond = 5,
                     timerId = Some \<lparr>period = 200, due = 1300\<rparr>\<rparr>,
           time = 1100, started = [(1, 200), (2, 400), (3, 1100)], running = [1, 2, 3]\<rparr>"
  note th = pacer_fifo_spaced[of ?es 5 ?w]
  have rng: "(0::real) < 5 \<and> 1000 / (5::real) < 2 ^ 31" by simp
  from th run_example run_example_punctual
  have sp: "spaced (timer_delay (1000 / 5)) (started ?w)" by blast
  from th run_example have ff: "map fst (started ?w) @ queue (pacer ?w) = added ?es" by blast
  from th rng have fl: "timer_delay (1000 / 5) = real_of_int \<lfloor>1000 / 5 :: real\<rfloor>" by blast
  from th have d: "timer_delay (1000 / 5) = 200" by blast
  have a: "added ?es = [1, 2, 3]" using ff by simp
  have b: "spaced (timer_delay (1000 / 5)) [(1::nat, 200), (2, 400), (3, 1100)]" using sp by simp
  have c: "map_option started (run ?es (world_init 5)) = Some [(1, 200), (2, 400), (3, 1100)]"
    by (simp only: run_example option.map world.simps)
  from a b c d fl run_example_punctual show ?thesis by (intro conjI)
qed

text \<open>
  Claim C6 as stated fails. At rate 3 the interval \<open>1000 / 3\<close> reaches the timer as 333
  milliseconds: in a punctual run two requests are called at 333 and 666, less than
  \<open>1000 / 3\<close> apart. And the service worker does not check the clock: when the platform
  runs the callback at 200 and again at 399.58, the second request is called then.
\<close>

theorem pacer_gap_counterexample:
  "map_option started (run [Add 0 (1::nat), Add 0 2, Tick 333, Tick 666] (world_init 3))
     = Some [(1, 333), (2, 666)] \<and>
   punctual [Add 0 (1::nat), Add 0 2, Tick 333, Tick 666] (world_init 3) \<and>
   \<not> spaced (1000 / 3) [(1::nat, 333), (2, 666)] \<and>
   map_option started (run [Add 0 (1::nat), Add 0 2, Tick 200, Tick (39958 / 100)] (world_init 5))
     = Some [(1, 200), (2, 39958 / 100)] \<and>
   \<not> spaced (1000 / 5) [(1::nat, 200), (2, 39958 / 100)]"
  by (simp add: pacer_defs)




subsection \<open>The persistent cache\<close>

lemma map_of_update_first:
  "map_of m k \<noteq> None \<Longrightarrow> map_of (map (\<lambda>p. if fst p = k then (k, v) else p) m) k = Some v"
  by (induction m) auto

lemma Map_get_Map_set: "Map_get k (Map_set k v m) = Some v"
  by (simp add: Map_get_def Map_set_def Map_has_def map_of_update_first map_add_def)

lemma logError_hd:
  "hd (logError now src dets logs)
     = \<lparr>timestamp = now, source = src,
        details = (case map_of dets ''error'' of
                     Some (DError e) \<Rightarrow>
                       map (\<lambda>p. if fst p = ''error'' then (fst p, DFlat (message e) (stack e)) else p) dets
                   | _ \<Rightarrow> dets)\<rparr>"
  by (cases logs) (simp_all add: logError_def Let_def maxLogSize_def)

lemma Map_get_LRU_set: "Map_get k (cache (LRU_set k v c)) = Some v"
  by (simp add: LRU_set_def Let_def Map_get_Map_set)

lemma LRU_get_miss: "Map_get k (cache c) = None \<Longrightarrow> LRU_get k c = (None, c)"
  by (simp add: LRU_get_def Map_get_def Map_has_def)

lemma LRU_get_hit:
  "Map_get k (cache c) = Some d \<Longrightarrow>
   LRU_get k c = (Some d, c\<lparr>cache := Map_set k d (Map_delete k (cache c))\<rparr>)"
  by (simp add: LRU_get_def Map_get_def Map_has_def)

lemma persistentCache_set_storage:
  "storage (persistentCache_set t None key v st) key
     = Some \<lparr>item_value = v, expires = t + cacheTTL (config st)\<rparr>"
  by (simp add: persistentCache_set_def Let_def)

text \<open>
  Claim C4 (as amended). An entry written at \<open>writeTime\<close> with the TTL of the
  configuration, and still stored, is returned by every \<open>get\<close> at a time \<open>now\<close> with
  \<open>now - writeTime \<le> TTL\<close> (the boundary included), when the storage read succeeds.
  When \<open>now - writeTime > TTL\<close> the \<open>get\<close> returns \<open>null\<close> and calls the storage to remove
  the record, which is gone when that call succeeds.
\<close>

theorem persistentCache_expiry:
  assumes "storage st' key = storage (persistentCache_set writeTime None key v st) key"
  shows "(now - writeTime \<le> cacheTTL (config st) \<longrightarrow>
            persistentCache_get now None rm key st' = (Some v, st'\<lparr>calls := calls st' @ [StorageGet key]\<rparr>)) \<and>
         (now - writeTime > cacheTTL (config st) \<longrightarrow>
            fst (persistentCache_get now None rm key st') = None \<and>
            calls (snd (persistentCache_get now None rm key st'))
              = calls st' @ [StorageGet key, StorageRemove key] \<and>
            storage (snd (persistentCache_get now None None key st')) key = None)"
proof -
  have s: "storage st' key = Some \<lparr>item_value = v, expires = writeTime + cacheTTL (config st)\<rparr>"
    using assms by (simp add: persistentCache_set_storage)
  show ?thesis
  proof (intro conjI impI)
    assume "now - writeTime \<le> cacheTTL (config st)"
    then have "\<not> now > writeTime + cacheTTL (config st)" by simp
    with s show "persistentCache_get now None rm key st' = (Some v, st'\<lparr>calls := calls st' @ [StorageGet key]\<rparr>)"
      by (simp add: persistentCache_get_def Let_def)
  next
    assume "now - writeTime > cacheTTL (config st)"
    then have e: "now > writeTime + cacheTTL (config st)" by simp
    with s show "fst (persistentCache_get now None rm key st') = None"
      by (cases rm) (simp_all add: persistentCache_get_def Let_def)
    from s e show "calls (snd (persistentCache_get now None rm key st'))
              = calls st' @ [StorageGet key, StorageRemove key]"
      by (cases rm) (simp_all add: persistentCache_get_def Let_def)
    from s e show "storage (snd (persistentCache_get now None None key st')) key = None"
      by (simp add: persistentCache_get_def Let_def)
  qed
qed

text \<open>
  The theorem with a TTL of 1000 on an entry written at time 1000: present at 1500,
  absent and removed at 2001.
\<close>

theorem persistentCache_expiry_witness:
  "fst (persistentCache_get 1500 None None ''meaning_hello''
          (persistentCache_set 1000 None ''meaning_hello'' example_definition
             (state_init\<lparr>config := config_init\<lparr>cacheTTL := 1000\<rparr>\<rparr>)))
     = Some example_definition \<and>
   fst (persistentCache_get 2001 None None ''meaning_hello''
          (persistentCache_set 1000 None ''meaning_hello'' example_definition
             (state_init\<lparr>config := config_init\<lparr>cacheTTL := 1000\<rparr>\<rparr>)))
     = None \<and>
   storage (snd (persistentCache_get 2001 None None ''meaning_hello''
          (persistentCache_set 1000 None ''meaning_hello'' example_definition
             (state_init\<lparr>config := config_init\<lparr>cacheTTL := 1000\<rparr>\<rparr>)))) ''meaning_hello''
     = None"
proof -
  let ?st = "state_init\<lparr>config := config_init\<lparr>cacheTTL := 1000\<rparr>\<rparr>"
  let ?st' = "persistentCache_set 1000 None ''meaning_hello'' example_definition ?st"
  have T: "cacheTTL (config ?st) = 1000" by simp
  note th = persistentCache_expiry[of ?st' "''meaning_hello''" 1000 example_definition ?st, OF refl]
  have "(1500::int) - 1000 \<le> cacheTTL (config ?st)" unfolding T by simp
  with th[of 1500 None] have a: "fst (persistentCache_get 1500 None None ''meaning_hello'' ?st') = Some example_definition"
    by simp
  have "(2001::int) - 1000 > cacheTTL (config ?st)" unfolding T by simp
  with th[of 2001 None] have b: "fst (persistentCache_get 2001 None None ''meaning_hello'' ?st') = None"
    "storage (snd (persistentCache_get 2001 None None ''meaning_hello'' ?st')) ''meaning_hello'' = None"
    by blast+
  from a b show ?thesis by simp
qed

text \<open>
  Claim C4 as stated fails at the boundary: at time 2000, exactly one TTL after the
  write, the test \<open>Date.now() > item.expires\<close> is false, so the entry is returned and
  stays in the storage.
\<close>

theorem persistentCache_boundary_counterexample:
  "fst (persistentCache_get 2000 None None ''meaning_hello''
          (persistentCache_set 1000 None ''meaning_hello'' example_definition
             (state_init\<lparr>config := config_init\<lparr>cacheTTL := 1000\<rparr>\<rparr>)))
     = Some example_definition \<and>
   storage (snd (persistentCache_get 2000 None None ''meaning_hello''
          (persistentCache_set 1000 None ''meaning_hello'' example_definition
             (state_init\<lparr>config := config_init\<lparr>cacheTTL := 1000\<rparr>\<rparr>)))) ''meaning_hello''
     = Some \<lparr>item_value = example_definition, expires = 2000\<rparr>"
  by (simp add: persistentCache_get_def persistentCache_set_def Let_def state_init_def)

lemma lookupMeaning_hit:
  "Map_get (cacheKey text) (cache (sessionCache st)) = Some d \<Longrightarrow>
   lookupMeaning now g r text st
     = (Resolved (Success None d (Some ''session'')),
        st\<lparr>sessionCache := snd (LRU_get (cacheKey text) (sessionCache st))\<rparr>)"
  by (simp add: lookupMeaning_def LRU_get_hit)

lemma lookupMeaning_miss:
  "Map_get (cacheKey text) (cache (sessionCache st)) = None \<Longrightarrow>
   lookupMeaning now g r text st
     = (case persistentCache_get now g r (cacheKey text) st of
          (Some d, st2) \<Rightarrow>
            (Resolved (Success None d (Some ''persistent'')),
             st2\<lparr>sessionCache := LRU_set (cacheKey text) d (sessionCache st2)\<rparr>)
        | (None, st2) \<Rightarrow>
            (Pending,
             st2\<lparr>limiter := add (real_of_int now)
                (LookupRequest text (cacheKey text)) (limiter st2)\<rparr>))"
  by (simp add: lookupMeaning_def LRU_get_miss)

text \<open>
  Claim C5. When the storage read of \<open>persistentCache.get\<close> throws, \<open>get\<close> returns
  \<open>null\<close> and the only other effect is a new first record in the error log, with source
  \<open>persistentCache.get\<close> and the message and stack of the error. A lookup whose session
  cache misses then puts its request on the rate limiter, as after a miss of the
  persistent cache; its promise stays pending and nothing is thrown.
\<close>

theorem persistentCache_get_read_failure:
  "persistentCache_get now (Some e) rm key st
     = (None, st\<lparr>calls := calls st @ [StorageGet key],
                 errorLogs := logError now ''persistentCache.get'' [(''error'', DError e)] (errorLogs st)\<rparr>) \<and>
   hd (logError now ''persistentCache.get'' [(''error'', DError e)] logs)
     = \<lparr>timestamp = now, source = ''persistentCache.get'',
        details = [(''error'', DFlat (message e) (stack e))]\<rparr> \<and>
   (Map_get (cacheKey text) (cache (sessionCache st)) = None \<longrightarrow>
      lookupMeaning now (Some e) rm text st
        = (Pending,
           st\<lparr>calls := calls st @ [StorageGet (cacheKey text)],
              errorLogs := logError now ''persistentCache.get'' [(''error'', DError e)] (errorLogs st),
              limiter := add (real_of_int now)
                           (LookupRequest text (cacheKey text)) (limiter st)\<rparr>))"
proof (intro conjI impI)
  show "persistentCache_get now (Some e) rm key st
     = (None, st\<lparr>calls := calls st @ [StorageGet key],
                 errorLogs := logError now ''persistentCache.get'' [(''error'', DError e)] (errorLogs st)\<rparr>)"
    by (simp add: persistentCache_get_def Let_def)
  show "hd (logError now ''persistentCache.get'' [(''error'', DError e)] logs)
     = \<lparr>timestamp = now, source = ''persistentCache.get'',
        details = [(''error'', DFlat (message e) (stack e))]\<rparr>"
    by (simp add: logError_hd)
next
  assume "Map_get (cacheKey text) (cache (sessionCache st)) = None"
  then have "LRU_get (cacheKey text) (sessionCache st) = (None, sessionCache st)"
    by (rule LRU_get_miss)
  then show "lookupMeaning now (Some e) rm text st
        = (Pending,
           st\<lparr>calls := calls st @ [StorageGet (cacheKey text)],
              errorLogs := logError now ''persistentCache.get'' [(''error'', DError e)] (errorLogs st),
              limiter := add (real_of_int now)
                           (LookupRequest text (cacheKey text)) (limiter st)\<rparr>)"
    by (simp add: lookupMeaning_def persistentCache_get_def Let_def)
qed

text \<open>
  The theorem on the first lookup of \<open>Hello\<close> when the storage read fails.
\<close>

theorem persistentCache_get_read_failure_witness:
  "Map_get (cacheKey ''Hello'') (cache (sessionCache state_init)) = None \<and>
   fst (lookupMeaning 7 (Some (JsError ''quota exceeded'' ''at get'')) None ''Hello'' state_init) = Pending \<and>
   queue (limiter (snd (lookupMeaning 7 (Some (JsError ''quota exceeded'' ''at get'')) None ''Hello'' state_init)))
     = [LookupRequest ''Hello'' ''meaning_hello''] \<and>
   errorLogs (snd (lookupMeaning 7 (Some (JsError ''quota exceeded'' ''at get'')) None ''Hello'' state_init))
     = [\<lparr>timestamp = 7, source = ''persistentCache.get'',
         details = [(''error'', DFlat ''quota exceeded'' ''at get'')]\<rparr>]"
proof -
  have m: "Map_get (cacheKey ''Hello'') (cache (sessionCache state_init)) = None"
    by (simp add: state_init_def LRUCache_new_def Map_get_def)
  note th = persistentCache_get_read_failure[of 7 "JsError ''quota exceeded'' ''at get''" None
      "''meaning_hello''" state_init "[]" "''Hello''"]
  from th m have l: "lookupMeaning 7 (Some (JsError ''quota exceeded'' ''at get'')) None ''Hello'' state_init
        = (Pending,
           state_init\<lparr>calls := calls state_init @ [StorageGet (cacheKey ''Hello'')],
              errorLogs := logError 7 ''persistentCache.get'' [(''error'', DError (JsError ''quota exceeded'' ''at get''))] (errorLogs state_init),
              limiter := add (real_of_int 7)
                           (LookupRequest ''Hello'' (cacheKey ''Hello'')) (limiter state_init)\<rparr>)"
    by blast
  show ?thesis unfolding l using m
    by (simp add: state_init_def logError_def maxLogSize_def rateLimiter_init_def add_def
        processQueue_def toLowerCase_def cacheKey_def)
qed

subsection \<open>rewriteTone\<close>

text \<open>
  Claim C9. With no Gemini key configured (\<open>null\<close>, or any falsy value),
  \<open>rewriteTone\<close> returns \<open>{success: false, error: "Gemini API key is not configured."}\<close>
  for every text and tone, makes no call to the platform (in particular no \<open>fetch\<close>),
  and puts the configuration error first in the error log.
\<close>

theorem rewriteTone_without_key:
  assumes "\<not> truthy (gemini (config st))"
  shows "rewriteTone now fetched text tone st
           = (Failure ''Gemini API key is not configured.'',
              st\<lparr>errorLogs := logError now ''api.rewriteTone''
                    [(''error'', DString ''Gemini API key is not configured.'')] (errorLogs st)\<rparr>) \<and>
         calls (snd (rewriteTone now fetched text tone st)) = calls st \<and>
         hd (errorLogs (snd (rewriteTone now fetched text tone st)))
           = \<lparr>timestamp = now, source = ''api.rewriteTone'',
              details = [(''error'', DString ''Gemini API key is not configured.'')]\<rparr>"
  using assms by (simp add: rewriteTone_def Let_def logError_hd)

text \<open>
  The theorem on the initial state, whose key is \<open>null\<close>.
\<close>

theorem rewriteTone_without_key_witness:
  "\<not> truthy (gemini (config state_init)) \<and>
   rewriteTone 3 (Response True 200 (Inr JNull)) ''x'' ''Formal'' state_init
     = (Failure ''Gemini API key is not configured.'',
        state_init\<lparr>errorLogs := [\<lparr>timestamp = 3, source = ''api.rewriteTone'',
             details = [(''error'', DString ''Gemini API key is not configured.'')]\<rparr>]\<rparr>) \<and>
   calls (snd (rewriteTone 3 (Response True 200 (Inr JNull)) ''x'' ''Formal'' state_init)) = []"
proof -
  have k: "\<not> truthy (gemini (config state_init))"
    by (simp add: state_init_def config_init_def)
  from rewriteTone_without_key[OF k, of 3 "Response True 200 (Inr JNull)" "''x''" "''Formal''"]
  show ?thesis using k by (simp add: state_init_def logError_def maxLogSize_def)
qed

text \<open>
  With a key, the first thing \<open>rewriteTone\<close> does is the \<open>fetch\<close>.
\<close>

lemma rewriteTone_with_key_fetches:
  assumes "truthy (gemini (config st))"
  shows "\<exists>url. calls (snd (rewriteTone now fetched text tone st))
           = calls st @ [Fetch url (Some (rewrite_prompt text tone))]"
  using assms by (auto simp: rewriteTone_def Let_def split: sum.splits)

subsection \<open>lookupMeaning\<close>

lemma persistentCache_get_frame:
  "limiter (snd (persistentCache_get now g r key st)) = limiter st \<and>
   sessionCache (snd (persistentCache_get now g r key st)) = sessionCache st \<and>
   filter is_fetch (calls (snd (persistentCache_get now g r key st))) = filter is_fetch (calls st)"
  by (simp add: persistentCache_get_def Let_def split: option.splits)

lemma persistentCache_get_hit:
  "storage st key = Some it \<Longrightarrow> now \<le> expires it \<Longrightarrow>
   persistentCache_get now None r key st
     = (Some (item_value it), st\<lparr>calls := calls st @ [StorageGet key]\<rparr>)"
  by (simp add: persistentCache_get_def Let_def)

lemma persistentCache_set_frame:
  "sessionCache (persistentCache_set now w key v st) = sessionCache st \<and>
   calls (persistentCache_set now w key v st) = calls st @ [StorageSet key]"
  by (simp add: persistentCache_set_def Let_def split: option.splits)

lemma run_request_usable:
  assumes "sanitizeDictionaryResponse raw = Inr (Some d)"
  shows "run_request now (Response True code (Inr raw)) w (LookupRequest text key) st
     = (Success (Some ''definition'') d (Some ''api''),
        persistentCache_set now w key d
          (st\<lparr>calls := calls st @ [Fetch (dictionary (config st) @ text) None],
              sessionCache := LRU_set key d (sessionCache st)\<rparr>))"
  using assms by (simp add: run_request_def fetch_definition_def Let_def)

text \<open>
  Claim C1. A lookup whose key is in the session cache resolves with that value and
  source \<open>session\<close>, and changes nothing but the order of the session cache. On a session
  miss, an unexpired entry of the persistent store is written into the session cache and
  returned with source \<open>persistent\<close>. When both tiers miss, the promise stays pending and
  the request is appended to the queue of the rate limiter; no \<open>fetch\<close> has been made yet.
  A lookup that resolves by itself leaves the rate limiter alone and makes no \<open>fetch\<close>.
  The request, run on a response that normalizes to a record, resolves with that record
  and source \<open>api\<close>, after writing it to the session cache and calling the persistent
  store to set it (where it is stored unless that call throws).
\<close>

theorem lookupMeaning_tiers:
  "(Map_get (cacheKey text) (cache (sessionCache st)) = Some d \<longrightarrow>
      lookupMeaning now g r text st
        = (Resolved (Success None d (Some ''session'')),
           st\<lparr>sessionCache := snd (LRU_get (cacheKey text) (sessionCache st))\<rparr>)) \<and>
   (Map_get (cacheKey text) (cache (sessionCache st)) = None \<and>
    storage st (cacheKey text) = Some it \<and> now \<le> expires it \<longrightarrow>
      lookupMeaning now None r text st
        = (Resolved (Success None (item_value it) (Some ''persistent'')),
           st\<lparr>calls := calls st @ [StorageGet (cacheKey text)],
              sessionCache := LRU_set (cacheKey text) (item_value it) (sessionCache st)\<rparr>) \<and>
      Map_get (cacheKey text)
        (cache (LRU_set (cacheKey text) (item_value it) (sessionCache st)))
        = Some (item_value it)) \<and>
   (Map_get (cacheKey text) (cache (sessionCache st)) = None \<and>
    fst (persistentCache_get now g r (cacheKey text) st) = None \<longrightarrow>
      fst (lookupMeaning now g r text st) = Pending \<and>
      limiter (snd (lookupMeaning now g r text st))
        = add (real_of_int now) (LookupRequest text (cacheKey text)) (limiter st) \<and>
      queue (limiter (snd (lookupMeaning now g r text st)))
        = queue (limiter st) @ [LookupRequest text (cacheKey text)] \<and>
      filter is_fetch (calls (snd (lookupMeaning now g r text st))) = filter is_fetch (calls st)) \<and>
   (fst (lookupMeaning now g r text st) \<noteq> Pending \<longrightarrow>
      limiter (snd (lookupMeaning now g r text st)) = limiter st \<and>
      filter is_fetch (calls (snd (lookupMeaning now g r text st))) = filter is_fetch (calls st)) \<and>
   (sanitizeDictionaryResponse raw = Inr (Some d) \<longrightarrow>
      fst (run_request now (Response True code (Inr raw)) w (LookupRequest text key) st)
        = Success (Some ''definition'') d (Some ''api'') \<and>
      Map_get key (cache (sessionCache
        (snd (run_request now (Response True code (Inr raw)) w (LookupRequest text key) st)))) = Some d \<and>
      calls (snd (run_request now (Response True code (Inr raw)) w (LookupRequest text key) st))
        = calls st @ [Fetch (dictionary (config st) @ text) None, StorageSet key] \<and>
      storage (snd (run_request now (Response True code (Inr raw)) None (LookupRequest text key) st)) key
        = Some \<lparr>item_value = d, expires = now + cacheTTL (config st)\<rparr>)"
proof (intro conjI impI)
  let ?key = "cacheKey text"
  let ?L = "lookupMeaning now g r text st"
  let ?P = "persistentCache_get now g r ?key st"
  note fr = persistentCache_get_frame[of now g r ?key st]
  {
    assume "Map_get ?key (cache (sessionCache st)) = Some d"
    then show "?L = (Resolved (Success None d (Some ''session'')),
           st\<lparr>sessionCache := snd (LRU_get ?key (sessionCache st))\<rparr>)"
      by (rule lookupMeaning_hit)
  }
  {
    assume h: "Map_get ?key (cache (sessionCache st)) = None \<and>
      storage st ?key = Some it \<and> now \<le> expires it"
    then have "persistentCache_get now None r ?key st
       = (Some (item_value it), st\<lparr>calls := calls st @ [StorageGet ?key]\<rparr>)"
      by (simp add: persistentCache_get_hit)
    with h show "lookupMeaning now None r text st
        = (Resolved (Success None (item_value it) (Some ''persistent'')),
           st\<lparr>calls := calls st @ [StorageGet ?key],
              sessionCache := LRU_set ?key (item_value it) (sessionCache st)\<rparr>)"
      by (simp add: lookupMeaning_miss)
    show "Map_get ?key (cache (LRU_set ?key (item_value it) (sessionCache st))) = Some (item_value it)"
      by (rule Map_get_LRU_set)
  }
  {
    assume h: "Map_get ?key (cache (sessionCache st)) = None \<and> fst ?P = None"
    then obtain st2 where p: "?P = (None, st2)" by (cases ?P) auto
    with h have l: "?L = (Pending, st2\<lparr>limiter := add (real_of_int now)
                (LookupRequest text ?key) (limiter st2)\<rparr>)"
      by (simp add: lookupMeaning_miss)
    from fr p have f: "limiter st2 = limiter st" "filter is_fetch (calls st2) = filter is_fetch (calls st)"
      by simp_all
    show "fst ?L = Pending" unfolding l by simp
    show "limiter (snd ?L) = add (real_of_int now) (LookupRequest text ?key) (limiter st)"
      unfolding l using f by simp
    show "queue (limiter (snd ?L)) = queue (limiter st) @ [LookupRequest text ?key]"
      unfolding l using f by (simp add: add_def processQueue_def)
    show "filter is_fetch (calls (snd ?L)) = filter is_fetch (calls st)"
      unfolding l using f by simp
  }
  {
    assume np: "fst ?L \<noteq> Pending"
    have "limiter (snd ?L) = limiter st \<and> filter is_fetch (calls (snd ?L)) = filter is_fetch (calls st)"
    proof (cases "Map_get ?key (cache (sessionCache st))")
      case (Some d')
      then show ?thesis by (simp add: lookupMeaning_hit)
    next
      case None
      obtain res st2 where p: "?P = (res, st2)" by (cases ?P)
      with np None obtain d' where "res = Some d'"
        by (cases res) (auto simp: lookupMeaning_miss)
      with None p fr show ?thesis by (simp add: lookupMeaning_miss)
    qed
    then show "limiter (snd ?L) = limiter st"
      "filter is_fetch (calls (snd ?L)) = filter is_fetch (calls st)" by simp_all
  }
  {
    assume u: "sanitizeDictionaryResponse raw = Inr (Some d)"
    note rr = run_request_usable[OF u, of now code _ "text" key st]
    show "fst (run_request now (Response True code (Inr raw)) w (LookupRequest text key) st)
        = Success (Some ''definition'') d (Some ''api'')"
      by (simp add: rr)
    show "Map_get key (cache (sessionCache
        (snd (run_request now (Response True code (Inr raw)) w (LookupRequest text key) st)))) = Some d"
      by (simp add: rr persistentCache_set_frame Map_get_LRU_set)
    show "calls (snd (run_request now (Response True code (Inr raw)) w (LookupRequest text key) st))
        = calls st @ [Fetch (dictionary (config st) @ text) None, StorageSet key]"
      by (simp add: rr persistentCache_set_frame)
    show "storage (snd (run_request now (Response True code (Inr raw)) None (LookupRequest text key) st)) key
        = Some \<lparr>item_value = d, expires = now + cacheTTL (config st)\<rparr>"
      by (simp add: rr persistentCache_set_def Let_def)
  }
qed

lemmas eval_defs =
  state_init_def config_init_def LRUCache_new_def rateLimiter_init_def lookupMeaning_def
  cacheKey_def toLowerCase_def LRU_get_def LRU_set_def Map_has_def Map_get_def Map_set_def
  Map_delete_def persistentCache_get_def persistentCache_set_def add_def processQueue_def
  setInterval_def timer_delay_200 dispatch_def onInterval_def rearm_def run_request_def
  fetch_definition_def sanitizeDictionaryResponse_def dot_def meanings_forEach_def first_definition_def
  opt_dot_def opt_index0_def forEach_add_def Set_add_def phonetic_of_def
  example_definition_def hello_response_def Let_def

lemma cold_lookup_eval: "lookupMeaning 0 None None ''Hello'' state_init
   = (Pending, state_init\<lparr>calls := [StorageGet ''meaning_hello''],
        limiter := \<lparr>queue = [LookupRequest ''Hello'' ''meaning_hello''], isProcessing = True,
                    requestsPerSecond = 5, timerId = Some \<lparr>period = 200, due = 200\<rparr>\<rparr>\<rparr>)"
  by (simp add: eval_defs)


lemma after_lookup_eq:
  "after_lookup = state_init\<lparr>calls := [StorageGet ''meaning_hello''],
        limiter := \<lparr>queue = [LookupRequest ''Hello'' ''meaning_hello''], isProcessing = True,
                    requestsPerSecond = 5, timerId = Some \<lparr>period = 200, due = 200\<rparr>\<rparr>\<rparr>"
  by (simp add: after_lookup_def cold_lookup_eval)


lemma hello_sanitized: "sanitizeDictionaryResponse hello_response = Inr (Some example_definition)"
  by (simp add: eval_defs)

text \<open>
  The theorem on a cold lookup of \<open>Hello\<close>, the run of its request, the same term
  again, and the same term after the session cache was lost.
\<close>

theorem lookupMeaning_tiers_witness:
  "fst (lookupMeaning 0 None None ''Hello'' state_init) = Pending \<and>
   queue (limiter after_lookup) = [LookupRequest ''Hello'' ''meaning_hello''] \<and>
   fst (dispatch 200 (Response True 200 (Inr hello_response)) None after_lookup)
     = Some (Success (Some ''definition'') example_definition (Some ''api'')) \<and>
   Map_get ''meaning_hello'' (cache (sessionCache after_fetch)) = Some example_definition \<and>
   storage after_fetch ''meaning_hello''
     = Some \<lparr>item_value = example_definition, expires = 604800200\<rparr> \<and>
   fst (lookupMeaning 300 None None ''HELLO'' after_fetch)
     = Resolved (Success None example_definition (Some ''session'')) \<and>
   calls (snd (lookupMeaning 300 None None ''HELLO'' after_fetch)) = calls after_fetch \<and>
   fst (lookupMeaning 400 None None ''hello'' (after_fetch\<lparr>sessionCache := LRUCache_new 50\<rparr>))
     = Resolved (Success None example_definition (Some ''persistent'')) \<and>
   cache (sessionCache (snd (lookupMeaning 400 None None ''hello''
       (after_fetch\<lparr>sessionCache := LRUCache_new 50\<rparr>))))
     = [(''meaning_hello'', example_definition)]"
proof -
  have k: "cacheKey ''Hello'' = ''meaning_hello''" "cacheKey ''HELLO'' = ''meaning_hello''"
    "cacheKey ''hello'' = ''meaning_hello''"
    by (simp_all add: cacheKey_def toLowerCase_def)
  \<comment> \<open>cold caches: both tiers miss, the request is queued\<close>
  have m0: "Map_get (cacheKey ''Hello'') (cache (sessionCache state_init)) = None \<and>
            fst (persistentCache_get 0 None None (cacheKey ''Hello'') state_init) = None"
    by (simp add: eval_defs)
  from lookupMeaning_tiers[of "''Hello''" state_init _ 0 None None] m0
  have a: "fst (lookupMeaning 0 None None ''Hello'' state_init) = Pending"
    "queue (limiter (snd (lookupMeaning 0 None None ''Hello'' state_init)))
       = queue (limiter state_init) @ [LookupRequest ''Hello'' (cacheKey ''Hello'')]"
    by blast+
  from a(2) have a2: "queue (limiter after_lookup) = [LookupRequest ''Hello'' ''meaning_hello'']"
    by (simp add: after_lookup_def k state_init_def rateLimiter_init_def)
  \<comment> \<open>the queued request runs on a usable response\<close>
  let ?st = "after_lookup\<lparr>limiter := rearm (real_of_int 200) (snd (onInterval (limiter after_lookup)))\<rparr>"
  have d: "dispatch 200 (Response True 200 (Inr hello_response)) None after_lookup
     = (case run_request 200 (Response True 200 (Inr hello_response)) None
               (LookupRequest ''Hello'' ''meaning_hello'') ?st of (res, st') \<Rightarrow> (Some res, st'))"
    by (simp add: dispatch_def onInterval_def after_lookup_eq)
  from lookupMeaning_tiers[of "''Hello''" ?st example_definition 200 _ _ _ hello_response 200 None
      "''meaning_hello''"] hello_sanitized
  have b: "fst (run_request 200 (Response True 200 (Inr hello_response)) None
               (LookupRequest ''Hello'' ''meaning_hello'') ?st)
        = Success (Some ''definition'') example_definition (Some ''api'')"
    "Map_get ''meaning_hello'' (cache (sessionCache (snd (run_request 200 (Response True 200 (Inr hello_response)) None
               (LookupRequest ''Hello'' ''meaning_hello'') ?st)))) = Some example_definition"
    "storage (snd (run_request 200 (Response True 200 (Inr hello_response)) None
               (LookupRequest ''Hello'' ''meaning_hello'') ?st)) ''meaning_hello''
        = Some \<lparr>item_value = example_definition, expires = 200 + cacheTTL (config ?st)\<rparr>"
    by blast+
  have b1: "fst (dispatch 200 (Response True 200 (Inr hello_response)) None after_lookup)
     = Some (Success (Some ''definition'') example_definition (Some ''api''))"
    using b(1) unfolding d by (simp add: case_prod_unfold)
  have b2: "Map_get ''meaning_hello'' (cache (sessionCache after_fetch)) = Some example_definition"
    using b(2) unfolding after_fetch_def d by (simp add: case_prod_unfold)
  have b3: "storage after_fetch ''meaning_hello''
     = Some \<lparr>item_value = example_definition, expires = 604800200\<rparr>"
    using b(3) unfolding after_fetch_def d
    by (simp add: case_prod_unfold after_lookup_eq state_init_def config_init_def)
  \<comment> \<open>the same term again: served by the session cache\<close>
  from lookupMeaning_tiers[of "''HELLO''" after_fetch example_definition 300 None None] b2
  have c: "lookupMeaning 300 None None ''HELLO'' after_fetch
        = (Resolved (Success None example_definition (Some ''session'')),
           after_fetch\<lparr>sessionCache := snd (LRU_get (cacheKey ''HELLO'') (sessionCache after_fetch))\<rparr>)"
    unfolding k by blast
  \<comment> \<open>after a restart the session cache is empty: served by the persistent store\<close>
  let ?re = "after_fetch\<lparr>sessionCache := LRUCache_new 50\<rparr>"
  let ?it = "\<lparr>item_value = example_definition, expires = 604800200\<rparr>"
  have h: "Map_get (cacheKey ''hello'') (cache (sessionCache ?re)) = None \<and>
           storage ?re (cacheKey ''hello'') = Some ?it \<and> 400 \<le> expires ?it"
    unfolding k using b3 by (simp add: LRUCache_new_def Map_get_def)
  from lookupMeaning_tiers[of "''hello''" ?re _ 400 _ None ?it] h
  have e: "lookupMeaning 400 None None ''hello'' ?re
        = (Resolved (Success None (item_value ?it) (Some ''persistent'')),
           ?re\<lparr>calls := calls ?re @ [StorageGet (cacheKey ''hello'')],
              sessionCache := LRU_set (cacheKey ''hello'') (item_value ?it) (sessionCache ?re)\<rparr>)"
    by blast
  have e2: "cache (sessionCache (snd (lookupMeaning 400 None None ''hello'' ?re)))
     = [(''meaning_hello'', example_definition)]"
    unfolding e k by (simp add: LRUCache_new_def LRU_set_def Map_set_def Map_has_def)
  show ?thesis using a(1) a2 b1 b2 b3 e2 unfolding c e by simp
qed

subsection \<open>Adding never calls\<close>






end
